theory Spec2Isabelle
  imports Main
begin

section \<open>Data model\<close>

text \<open>
  A division step of the Euclidean chain: the dictionary
  \<^verbatim>\<open>{'p': p, 'q': q, 'k': q // p, 'r': q % p}\<close> built by \<^verbatim>\<open>modulo_formula\<close>.
  The fields are prefixed, since \<open>p\<close>, \<open>q\<close>, \<open>k\<close> and \<open>r\<close> are wanted as variables.
\<close>

record modulo_step =
  step_p :: int
  step_q :: int
  step_k :: int
  step_r :: int

text \<open>
  The running identity \<^verbatim>\<open>{'m': .., 'x': .., 'n': .., 'y': ..}\<close> of the
  backtracking loop in \<^verbatim>\<open>m_inverse_affine\<close>.
\<close>

record bezout_identity =
  bz_m :: int
  bz_x :: int
  bz_n :: int
  bz_y :: int

text \<open>
  Everything the Python code can raise on integer input. \<open>AffineException code dump\<close>
  is the repository's own exception class with its \<^verbatim>\<open>code\<close> and \<^verbatim>\<open>dump\<close> attributes
  (\<open>None\<close> is Python's default \<^verbatim>\<open>dump=None\<close>); the others are Python's built-in
  exceptions, which the code never raises on purpose but can run into.
\<close>

datatype error =
    AffineException int "modulo_step list option"
  | IndexError
  | ZeroDivisionError
  | TypeError
  | UnboundLocalError

definition MAX_BYTES :: int where
  "MAX_BYTES = 255"

text \<open>Reading \<^verbatim>\<open>xs[i]\<close> for an index \<open>i \<ge> 0\<close>: out of range raises.\<close>

definition index_at :: "'a list \<Rightarrow> nat \<Rightarrow> error + 'a" where
  "index_at xs i = (if i < length xs then Inr (xs ! i) else Inl IndexError)"

section \<open>The affine transform and the two searchers\<close>

text \<open>
  \<^verbatim>\<open>decrypt_affine(m_inverse, n, b, C)\<close> of \<^verbatim>\<open>brute_force_affine.py\<close> and
  \<^verbatim>\<open>exhaustive_key_affine.py\<close> (the two files hold the same text):
  \<^verbatim>\<open>return (m_inverse * (C - b)) % n\<close>. Python's \<^verbatim>\<open>%\<close> on integers is the floored
  remainder, as \<open>mod\<close> on \<open>int\<close> is, and raises for a zero modulus.
\<close>

definition decrypt_affine :: "int \<Rightarrow> int \<Rightarrow> int \<Rightarrow> int \<Rightarrow> error + int" where
  "decrypt_affine m_inverse n b C =
     (if n = 0 then Inl ZeroDivisionError else Inr ((m_inverse * (C - b)) mod n))"

text \<open>
  The test of both searchers on a candidate \<open>(i, j)\<close>:
  \<^verbatim>\<open>decrypt_affine(i, MAX_BYTES + 1, j, header[0]) == 0xFF and
     decrypt_affine(i, MAX_BYTES + 1, j, header[1]) == 0xD8\<close>.
  \<^verbatim>\<open>and\<close> evaluates its right operand only when the left one is true.
\<close>

definition header_test :: "int list \<Rightarrow> int \<Rightarrow> int \<Rightarrow> error + bool" where
  "header_test header i j =
     (case index_at header 0 of
        Inl e \<Rightarrow> Inl e
      | Inr c0 \<Rightarrow>
          (case decrypt_affine i (MAX_BYTES + 1) j c0 of
             Inl e \<Rightarrow> Inl e
           | Inr d0 \<Rightarrow>
               if d0 = 255 then
                 (case index_at header 1 of
                    Inl e \<Rightarrow> Inl e
                  | Inr c1 \<Rightarrow>
                      (case decrypt_affine i (MAX_BYTES + 1) j c1 of
                         Inl e \<Rightarrow> Inl e
                       | Inr d1 \<Rightarrow> Inr (d1 = 216)))
               else Inr False))"

text \<open>
  The inner loop \<^verbatim>\<open>for j in range(MAX_BYTES + 1)\<close>, the same in both searchers, over
  the values of \<open>j\<close> still to try. \<open>Inr (Some (i, j))\<close> is \<^verbatim>\<open>return i, j\<close>;
  \<open>Inr None\<close> is the loop running to its end.
\<close>

fun search_b :: "int list \<Rightarrow> int \<Rightarrow> int list \<Rightarrow> error + (int \<times> int) option" where
  "search_b header i [] = Inr None"
| "search_b header i (j # js) =
     (case header_test header i j of
        Inl e \<Rightarrow> Inl e
      | Inr True \<Rightarrow> Inr (Some (i, j))
      | Inr False \<Rightarrow> search_b header i js)"

text \<open>
  The outer loop \<^verbatim>\<open>for i in range(1, MAX_BYTES + 1)\<close> of \<^verbatim>\<open>brute_force\<close>. \<open>Inr None\<close>
  at the end of the list is the final \<^verbatim>\<open>return None, None\<close>.
\<close>

fun brute_force_loop :: "int list \<Rightarrow> int list \<Rightarrow> error + (int \<times> int) option" where
  "brute_force_loop header [] = Inr None"
| "brute_force_loop header (i # is) =
     (case search_b header i [0..MAX_BYTES] of
        Inl e \<Rightarrow> Inl e
      | Inr (Some found) \<Rightarrow> Inr (Some found)
      | Inr None \<Rightarrow> brute_force_loop header is)"

definition brute_force :: "int list \<Rightarrow> error + (int \<times> int) option" where
  "brute_force ciphertext = brute_force_loop (take 2 ciphertext) [1..MAX_BYTES]"

text \<open>
  \<^verbatim>\<open>gcd(a, b)\<close> of \<^verbatim>\<open>exhaustive_key_affine.py\<close>. Its type test never fires on
  integers. On negative arguments the recursion need not end (\<^verbatim>\<open>gcd(-1, 5)\<close> calls
  \<^verbatim>\<open>gcd(-1, 0)\<close>, which calls itself), so the result is an option and \<open>None\<close> is
  "does not return".
\<close>

partial_function (option) gcd_rec :: "int \<Rightarrow> int \<Rightarrow> int option" where
  "gcd_rec a b =
     (if a > b then gcd_rec b a
      else if a = 0 then Some b
      else gcd_rec a (b mod a))"

declare gcd_rec.simps [code]

text \<open>
  The outer loop of \<^verbatim>\<open>exhaustive_key\<close>: a value of \<open>i\<close> with
  \<^verbatim>\<open>gcd(i, MAX_BYTES + 1) != 1\<close> is skipped.
\<close>

fun exhaustive_key_loop ::
  "int list \<Rightarrow> int list \<Rightarrow> (error + (int \<times> int) option) option" where
  "exhaustive_key_loop header [] = Some (Inr None)"
| "exhaustive_key_loop header (i # is) =
     (case gcd_rec i (MAX_BYTES + 1) of
        None \<Rightarrow> None
      | Some g \<Rightarrow>
          if g \<noteq> 1 then exhaustive_key_loop header is
          else
            (case search_b header i [0..MAX_BYTES] of
               Inl e \<Rightarrow> Some (Inl e)
             | Inr (Some found) \<Rightarrow> Some (Inr (Some found))
             | Inr None \<Rightarrow> exhaustive_key_loop header is))"

definition exhaustive_key :: "int list \<Rightarrow> (error + (int \<times> int) option) option" where
  "exhaustive_key ciphertext = exhaustive_key_loop (take 2 ciphertext) [1..MAX_BYTES]"

section \<open>The modular inverse\<close>

text \<open>
  \<^verbatim>\<open>modulo_formula(p, q)\<close>: the arguments are put in order by one recursive call, then
  \<^verbatim>\<open>q // p\<close> and \<^verbatim>\<open>q % p\<close> are Python's floored division and remainder (as \<open>div\<close>
  and \<open>mod\<close> on \<open>int\<close> are), which raise for \<open>p = 0\<close>. The type test on top of the
  function never fires on integers.
\<close>

function modulo_formula :: "int \<Rightarrow> int \<Rightarrow> error + modulo_step" where
  "modulo_formula p q =
     (if p > q then modulo_formula q p
      else if p = 0 then Inl ZeroDivisionError
      else Inr \<lparr>step_p = p, step_q = q, step_k = q div p, step_r = q mod p\<rparr>)"
  by pat_completeness auto
termination
  by (relation "measure (\<lambda>(p, q). if p > q then 1 else 0)") auto

text \<open>Reading \<^verbatim>\<open>xs[-k]\<close> for \<open>k > 0\<close>: the \<open>k\<close>-th element from the end, or IndexError.\<close>

definition index_from_end :: "'a list \<Rightarrow> nat \<Rightarrow> error + 'a" where
  "index_from_end xs k =
     (if 0 < k \<and> k \<le> length xs then Inr (xs ! (length xs - k)) else Inl IndexError)"

text \<open>
  The loop \<^verbatim>\<open>while gcd_affine[-1]['r'] != 0: gcd_affine.append(modulo_formula(...))\<close> of
  \<^verbatim>\<open>fill_gcd_affine\<close>, on the list built so far. For a negative \<open>m\<close> it can run
  forever (\<^verbatim>\<open>fill_gcd_affine(-3, 256)\<close> appends the step of \<open>(-3, -2)\<close> again and
  again), so \<open>None\<close> is "does not return".
\<close>

partial_function (option) fill_gcd_affine_loop ::
  "modulo_step list \<Rightarrow> (error + modulo_step list) option" where
  "fill_gcd_affine_loop gcd_affine =
     (case index_from_end gcd_affine 1 of
        Inl e \<Rightarrow> Some (Inl e)
      | Inr s \<Rightarrow>
          if step_r s \<noteq> 0 then
            (case modulo_formula (step_r s) (step_p s) of
               Inl e \<Rightarrow> Some (Inl e)
             | Inr s' \<Rightarrow> fill_gcd_affine_loop (gcd_affine @ [s']))
          else Some (Inr gcd_affine))"

declare fill_gcd_affine_loop.simps [code]

text \<open>
  \<^verbatim>\<open>fill_gcd_affine(m, n)\<close>. After the loop the code reads \<^verbatim>\<open>gcd_affine[-2]['r']\<close>,
  which raises IndexError when the chain has one step only.
\<close>

definition fill_gcd_affine :: "int \<Rightarrow> int \<Rightarrow> (error + modulo_step list) option" where
  "fill_gcd_affine m n =
     (if n \<le> m then Some (Inl (AffineException 2 None))
      else
        (case modulo_formula m n of
           Inl e \<Rightarrow> Some (Inl e)
         | Inr s \<Rightarrow>
             (case fill_gcd_affine_loop [s] of
                None \<Rightarrow> None
              | Some (Inl e) \<Rightarrow> Some (Inl e)
              | Some (Inr gcd_affine) \<Rightarrow>
                  (case index_from_end gcd_affine 2 of
                     Inl e \<Rightarrow> Some (Inl e)
                   | Inr s2 \<Rightarrow>
                       if step_r s2 \<noteq> 1
                       then Some (Inl (AffineException 3 (Some gcd_affine)))
                       else Some (Inr gcd_affine)))))"

text \<open>
  One pass of the body of the backtracking loop of \<^verbatim>\<open>m_inverse_affine\<close> on the
  popped step \<open>f\<close>: a step with remainder 0 is skipped; the first other step starts
  the identity; every later one adds \<^verbatim>\<open>x * k\<close> to \<^verbatim>\<open>y\<close> (with \<^verbatim>\<open>k\<close> negated), stores
  \<^verbatim>\<open>q\<close> in \<^verbatim>\<open>m\<close>, then swaps \<^verbatim>\<open>m\<close> with \<^verbatim>\<open>n\<close> and \<^verbatim>\<open>x\<close> with \<^verbatim>\<open>y\<close>.
\<close>

definition backtrack_step ::
  "modulo_step \<Rightarrow> bezout_identity option \<Rightarrow> bezout_identity option" where
  "backtrack_step f ident =
     (if step_r f = 0 then ident
      else
        let k = step_k f * (- 1) in
        (case ident of
           None \<Rightarrow> Some \<lparr>bz_m = step_p f, bz_x = k, bz_n = step_q f, bz_y = 1\<rparr>
         | Some B \<Rightarrow>
             let B1 = B\<lparr>bz_y := bz_y B + bz_x B * k\<rparr>;
                 B2 = B1\<lparr>bz_m := step_q f\<rparr>;
                 B3 = B2\<lparr>bz_m := bz_n B2, bz_n := bz_m B2\<rparr>;
                 B4 = B3\<lparr>bz_x := bz_y B3, bz_y := bz_x B3\<rparr>
             in Some B4))"

text \<open>
  The state of that loop is the list of steps not yet popped and the identity so far
  (\<open>None\<close> is Python's \<^verbatim>\<open>None\<close>); one iteration pops the last step.
\<close>

definition backtrack_iteration ::
  "modulo_step list \<times> bezout_identity option \<Rightarrow> modulo_step list \<times> bezout_identity option"
  where
  "backtrack_iteration st =
     (case st of (fs, ident) \<Rightarrow> (butlast fs, backtrack_step (last fs) ident))"

function backtrack_loop ::
  "modulo_step list \<times> bezout_identity option \<Rightarrow> bezout_identity option" where
  "backtrack_loop (fs, ident) =
     (if length fs > 0 then backtrack_loop (backtrack_iteration (fs, ident)) else ident)"
  by pat_completeness auto
termination
  by (relation "measure (\<lambda>(fs, ident). length fs)") (auto simp: backtrack_iteration_def)

text \<open>
  \<^verbatim>\<open>m_inverse_affine(m, n)\<close>. Reading \<^verbatim>\<open>affine_bezout_identity['x']\<close> while the
  identity is still \<^verbatim>\<open>None\<close> would be a TypeError.
\<close>

definition m_inverse_affine :: "int \<Rightarrow> int \<Rightarrow> (error + int) option" where
  "m_inverse_affine m n =
     (if n \<le> m then Some (Inl (AffineException 4 None))
      else
        (case fill_gcd_affine m n of
           None \<Rightarrow> None
         | Some (Inl e) \<Rightarrow> Some (Inl e)
         | Some (Inr gcd_modulo_formulas) \<Rightarrow>
             (case backtrack_loop (gcd_modulo_formulas, None) of
                None \<Rightarrow> Some (Inl TypeError)
              | Some B \<Rightarrow>
                  Some (Inr (if bz_x B < 0 then n + bz_x B else bz_x B)))))"

section \<open>The known-plaintext solver\<close>

text \<open>The dictionary \<^verbatim>\<open>{'m': .., 'm^-1': .., 'b': ..}\<close> that the solver returns.\<close>

record affine_parameters =
  key_m :: int
  key_m_inverse :: int
  key_b :: int

text \<open>\<^verbatim>\<open>xs.pop(i)\<close> for \<open>i \<ge> 0\<close>: the element and the list without it.\<close>

definition pop :: "'a list \<Rightarrow> nat \<Rightarrow> error + ('a \<times> 'a list)" where
  "pop xs i =
     (if i < length xs then Inr (xs ! i, take i xs @ drop (Suc i) xs) else Inl IndexError)"

text \<open>
  The \<^verbatim>\<open>try\<close> / \<^verbatim>\<open>except AffineException\<close> block of \<^verbatim>\<open>analyze_known_plaintext\<close>, which
  binds \<^verbatim>\<open>m\<close>. \<open>Inr None\<close> is the block ending with \<^verbatim>\<open>m\<close> unbound: an AffineException
  with a code other than 3 is caught and nothing is done. Exceptions of other classes
  are not caught. \<open>g\<close> is \<^verbatim>\<open>ae.dump[-1]['p']\<close>.
\<close>

definition solve_m :: "int \<Rightarrow> int \<Rightarrow> int \<Rightarrow> (error + int option) option" where
  "solve_m p c n =
     (case m_inverse_affine p n of
        None \<Rightarrow> None
      | Some (Inr p_inverse) \<Rightarrow>
          if n = 0 then Some (Inl ZeroDivisionError)
          else Some (Inr (Some ((c * p_inverse) mod n)))
      | Some (Inl (AffineException code dump)) \<Rightarrow>
          if code = 3 then
            (case dump of
               None \<Rightarrow> Some (Inl TypeError)
             | Some d \<Rightarrow>
                 (case index_from_end d 1 of
                    Inl e \<Rightarrow> Some (Inl e)
                  | Inr s \<Rightarrow>
                      let g = step_p s in
                      if g = 0 then Some (Inl ZeroDivisionError)
                      else if c mod g = 0 then
                        (case m_inverse_affine (p div g) (n div g) of
                           None \<Rightarrow> None
                         | Some (Inl e) \<Rightarrow> Some (Inl e)
                         | Some (Inr p_inverse) \<Rightarrow>
                             if n div g = 0 then Some (Inl ZeroDivisionError)
                             else Some (Inr (Some (((c div g) * p_inverse) mod (n div g)))))
                      else Some (Inl (AffineException 7 None))))
          else Some (Inr None)
      | Some (Inl e) \<Rightarrow> Some (Inl e))"

text \<open>
  \<^verbatim>\<open>analyze_known_plaintext\<close> from the point where both samples are drawn: the swap
  that puts the larger plaintext byte first, the two differences, the block above, then
  \<^verbatim>\<open>b\<close> and the result. Reading the unbound \<^verbatim>\<open>m\<close> raises UnboundLocalError.
\<close>

definition solve_samples :: "int \<Rightarrow> int \<Rightarrow> int \<Rightarrow> int \<Rightarrow> (error + affine_parameters) option"
  where
  "solve_samples p1 c1 p2 c2 =
     (let (first_p, first_c, second_p, second_c) =
            (if p1 < p2 then (p2, c2, p1, c1) else (p1, c1, p2, c2));
          p = first_p - second_p;
          c = first_c - second_c;
          n = MAX_BYTES + 1
      in
        (case solve_m p c n of
           None \<Rightarrow> None
         | Some (Inl e) \<Rightarrow> Some (Inl e)
         | Some (Inr None) \<Rightarrow> Some (Inl UnboundLocalError)
         | Some (Inr (Some m)) \<Rightarrow>
             let b = (first_c - first_p * m) mod n in
             (case m_inverse_affine m (MAX_BYTES + 1) of
                None \<Rightarrow> None
              | Some (Inl e) \<Rightarrow> Some (Inl e)
              | Some (Inr m_inv) \<Rightarrow>
                  Some (Inr \<lparr>key_m = m, key_m_inverse = m_inv, key_b = b\<rparr>))))"

text \<open>
  \<^verbatim>\<open>analyze_known_plaintext(known_plaintext, known_ciphertext)\<close>. The two results of
  \<^verbatim>\<open>random.randint\<close> are the parameters \<open>first_eq_index\<close> and \<open>second_eq_index\<close>; the
  code draws the first from \<open>0 .. len - 1\<close> and the second from \<open>0 .. len - 2\<close>
  (the length after the first \<^verbatim>\<open>pop\<close>). The function changes its two argument lists
  by \<^verbatim>\<open>pop\<close>, so the result carries the two lists as they are when the call ends,
  by return or by exception.
\<close>

definition analyze_known_plaintext ::
  "nat \<Rightarrow> nat \<Rightarrow> int list \<Rightarrow> int list \<Rightarrow>
     ((error + affine_parameters) \<times> int list \<times> int list) option" where
  "analyze_known_plaintext first_eq_index second_eq_index known_plaintext known_ciphertext =
     (if length known_plaintext \<noteq> length known_ciphertext
      then Some (Inl (AffineException 5 None), known_plaintext, known_ciphertext)
      else if length known_plaintext < 2
      then Some (Inl (AffineException 6 None), known_plaintext, known_ciphertext)
      else
        (case pop known_plaintext first_eq_index of
           Inl e \<Rightarrow> Some (Inl e, known_plaintext, known_ciphertext)
         | Inr (first_p, kp1) \<Rightarrow>
        (case pop known_ciphertext first_eq_index of
           Inl e \<Rightarrow> Some (Inl e, kp1, known_ciphertext)
         | Inr (first_c, kc1) \<Rightarrow>
        (case pop kp1 second_eq_index of
           Inl e \<Rightarrow> Some (Inl e, kp1, kc1)
         | Inr (second_p, kp2) \<Rightarrow>
        (case pop kc1 second_eq_index of
           Inl e \<Rightarrow> Some (Inl e, kp2, kc1)
         | Inr (second_c, kc2) \<Rightarrow>
        (case solve_samples first_p first_c second_p second_c of
           None \<Rightarrow> None
         | Some res \<Rightarrow> Some (res, kp2, kc2)))))))"

section \<open>The Euclidean chain, for the proofs\<close>

text \<open>
  Not a function of the source: the list of division steps that Euclid's algorithm
  goes through from \<open>(p, q)\<close> with \<open>0 < p \<le> q\<close>, as a total recursive function. The
  loop of \<^verbatim>\<open>fill_gcd_affine\<close> is shown below to build exactly this list, and the
  properties of the chain are then proved by induction on this function.
\<close>

function euclid_chain :: "int \<Rightarrow> int \<Rightarrow> modulo_step list" where
  "euclid_chain p q =
     (if 0 < p \<and> p \<le> q \<and> q mod p \<noteq> 0
      then \<lparr>step_p = p, step_q = q, step_k = q div p, step_r = q mod p\<rparr>
             # euclid_chain (q mod p) p
      else [\<lparr>step_p = p, step_q = q, step_k = q div p, step_r = q mod p\<rparr>])"
  by pat_completeness auto
termination
  by (relation "measure (\<lambda>(p, q). nat p)") auto

section \<open>Lemmas about the searchers\<close>

lemma decrypt_affine_256:
  "decrypt_affine i (MAX_BYTES + 1) j c = Inr ((i * (c - j)) mod 256)"
  by (simp add: decrypt_affine_def MAX_BYTES_def)

lemma header_test_two:
  assumes "2 \<le> length header"
  shows "header_test header i j =
    Inr ((i * (header ! 0 - j)) mod 256 = 255 \<and> (i * (header ! 1 - j)) mod 256 = 216)"
proof -
  have "0 < length header" "1 < length header" using assms by auto
  then show ?thesis
    by (simp add: header_test_def index_at_def decrypt_affine_256)
qed

lemma even_mult_mod_256:
  fixes i :: int
  assumes "even i"
  shows "even ((i * d) mod 256)"
proof -
  have "even (i * d)" using assms by simp
  moreover have "(2::int) dvd 256" by simp
  ultimately show ?thesis by (simp add: dvd_mod_iff)
qed

lemma header_test_even:
  assumes "even i"
  shows "header_test header i j \<noteq> Inr True"
proof (cases header)
  case Nil
  then show ?thesis by (simp add: header_test_def index_at_def)
next
  case (Cons c0 cs)
  have "even ((i * (c0 - j)) mod 256)" using assms by (rule even_mult_mod_256)
  then have "(i * (c0 - j)) mod 256 \<noteq> 255" by auto
  with Cons show ?thesis
    by (simp add: header_test_def index_at_def decrypt_affine_256)
qed

lemma header_test_even_False:
  assumes "even i" and "header \<noteq> []"
  shows "header_test header i j = Inr False"
proof -
  obtain c0 cs where h: "header = c0 # cs" using assms(2) by (cases header) auto
  have "even ((i * (c0 - j)) mod 256)" using assms(1) by (rule even_mult_mod_256)
  then have "(i * (c0 - j)) mod 256 \<noteq> 255" by auto
  with h show ?thesis
    by (simp add: header_test_def index_at_def decrypt_affine_256)
qed

lemma search_b_even:
  assumes "even i" and "header \<noteq> []"
  shows "search_b header i js = Inr None"
  using assms by (induction js) (simp_all add: header_test_even_False)

lemma search_b_Some_fst:
  "search_b header i js = Inr (Some (a, b)) \<Longrightarrow> a = i"
  by (induction js) (auto split: sum.splits bool.splits)

lemma search_b_Some_match:
  "search_b header i js = Inr (Some (a, b)) \<Longrightarrow> header_test header i b = Inr True"
  by (induction js) (auto split: sum.splits bool.splits)

lemma gcd_rec_nonneg:
  "0 \<le> a \<Longrightarrow> 0 \<le> b \<Longrightarrow> gcd_rec a b = Some (gcd a b)"
proof (induction "nat (2 * (a + b)) + (if a > b then 1 else 0)" arbitrary: a b rule: less_induct)
  case less
  show ?case
  proof (cases "a > b")
    case True
    have "gcd_rec a b = gcd_rec b a" using True by (subst gcd_rec.simps) simp
    also have "\<dots> = Some (gcd b a)"
      using True less.prems by (intro less.hyps) auto
    finally show ?thesis by (simp add: gcd.commute)
  next
    case False
    show ?thesis
    proof (cases "a = 0")
      case True
      then show ?thesis using less.prems by (subst gcd_rec.simps) simp
    next
      case nz: False
      have pos: "0 < a" using nz less.prems by simp
      have m: "0 \<le> b mod a" "b mod a < a" using pos by simp_all
      have "gcd_rec a b = gcd_rec a (b mod a)"
        using False nz by (subst gcd_rec.simps) simp
      also have "\<dots> = Some (gcd a (b mod a))"
        using False less.prems m by (intro less.hyps) auto
      finally show ?thesis by (simp add: gcd.commute[of a] gcd_red_int[symmetric])
    qed
  qed
qed

lemma gcd_256_odd:
  fixes i :: int
  shows "gcd i 256 = 1 \<longleftrightarrow> odd i"
proof -
  have "(256::int) = 2 ^ 8" by simp
  then have "coprime i 256 \<longleftrightarrow> coprime i 2"
    by (simp only: coprime_power_right_iff) simp
  then show ?thesis by (simp add: coprime_iff_gcd_eq_1[symmetric] coprime_right_2_iff_odd)
qed

lemma exhaustive_key_loop_eq:
  assumes "header \<noteq> []" and "\<forall>i\<in>set is. 0 \<le> i"
  shows "exhaustive_key_loop header is = Some (brute_force_loop header is)"
  using assms(2)
proof (induction "is")
  case Nil
  then show ?case by simp
next
  case (Cons i "is")
  have g: "gcd_rec i (MAX_BYTES + 1) = Some (gcd i 256)"
    using Cons.prems by (simp add: MAX_BYTES_def gcd_rec_nonneg)
  show ?case
  proof (cases "odd i")
    case True
    then show ?thesis using Cons g
      by (simp add: gcd_256_odd split: sum.splits option.splits)
  next
    case False
    then have "search_b header i [0..MAX_BYTES] = Inr None"
      using assms(1) by (simp add: search_b_even)
    then show ?thesis using Cons g False
      by (simp add: gcd_256_odd)
  qed
qed

lemma exhaustive_key_eq_brute_force:
  assumes "ciphertext \<noteq> []"
  shows "exhaustive_key ciphertext = Some (brute_force ciphertext)"
proof -
  have "take 2 ciphertext \<noteq> []" using assms by (cases ciphertext) auto
  then show ?thesis
    unfolding exhaustive_key_def brute_force_def
    by (rule exhaustive_key_loop_eq) (simp add: MAX_BYTES_def)
qed

lemma search_b_None_iff:
  assumes "\<And>j. header_test header i j = Inr (M j)"
  shows "search_b header i js = Inr None \<longleftrightarrow> (\<forall>j\<in>set js. \<not> M j)"
  by (induction js) (auto simp: assms split: bool.splits)

lemma search_b_total:
  assumes "\<And>j. header_test header i j = Inr (M j)"
  shows "\<exists>res. search_b header i js = Inr res"
  by (induction js) (auto simp: assms split: bool.splits)

lemma search_b_Some_iff:
  assumes "\<And>j. header_test header i j = Inr (M j)" and "sorted_wrt (<) js"
  shows "search_b header i js = Inr (Some (a, b)) \<longleftrightarrow>
    a = i \<and> b \<in> set js \<and> M b \<and> (\<forall>j\<in>set js. j < b \<longrightarrow> \<not> M j)"
  using assms(2)
proof (induction js)
  case Nil
  then show ?case by simp
next
  case (Cons j js)
  then have later: "\<forall>x\<in>set js. j < x" and sorted: "sorted_wrt (<) js" by simp_all
  show ?case
  proof (cases "M j")
    case True
    then have "search_b header i (j # js) = Inr (Some (i, j))" by (simp add: assms(1))
    moreover have "(a = i \<and> b \<in> set (j # js) \<and> M b \<and> (\<forall>j'\<in>set (j # js). j' < b \<longrightarrow> \<not> M j'))
        \<longleftrightarrow> a = i \<and> b = j"
      using True later by auto
    ultimately show ?thesis by auto
  next
    case False
    then have "search_b header i (j # js) = search_b header i js" by (simp add: assms(1))
    moreover have "(a = i \<and> b \<in> set (j # js) \<and> M b \<and> (\<forall>j'\<in>set (j # js). j' < b \<longrightarrow> \<not> M j'))
        \<longleftrightarrow> (a = i \<and> b \<in> set js \<and> M b \<and> (\<forall>j'\<in>set js. j' < b \<longrightarrow> \<not> M j'))"
      using False by auto
    ultimately show ?thesis using Cons.IH[OF sorted] by simp
  qed
qed

lemma sorted_wrt_upto: "sorted_wrt (<) [a..b]"
  by (simp add: strict_sorted_iff)

lemma brute_force_loop_total:
  assumes "\<And>i j. header_test header i j = Inr (M i j)"
  shows "\<exists>res. brute_force_loop header is = Inr res"
proof (induction "is")
  case Nil
  then show ?case by simp
next
  case (Cons i "is")
  obtain res where "search_b header i [0..MAX_BYTES] = Inr res"
    using search_b_total[of header i "M i"] assms by blast
  then show ?case using Cons by (cases res) auto
qed

lemma brute_force_loop_None_iff:
  assumes "\<And>i j. header_test header i j = Inr (M i j)"
  shows "brute_force_loop header is = Inr None \<longleftrightarrow>
    (\<forall>i\<in>set is. \<forall>j\<in>{0..255}. \<not> M i j)"
proof (induction "is")
  case Nil
  then show ?case by simp
next
  case (Cons i "is")
  have none: "search_b header i [0..MAX_BYTES] = Inr None \<longleftrightarrow> (\<forall>j\<in>{0..255}. \<not> M i j)"
    using search_b_None_iff[of header i "M i" "[0..MAX_BYTES]"] assms
    by (simp add: MAX_BYTES_def)
  obtain res where res: "search_b header i [0..MAX_BYTES] = Inr res"
    using search_b_total[of header i "M i"] assms by blast
  show ?case
  proof (cases res)
    case None
    with res none Cons show ?thesis by simp
  next
    case (Some found)
    with res none show ?thesis by auto
  qed
qed

lemma brute_force_loop_Some_iff:
  assumes "\<And>i j. header_test header i j = Inr (M i j)" and "sorted_wrt (<) is"
  shows "brute_force_loop header is = Inr (Some (a, b)) \<longleftrightarrow>
    a \<in> set is \<and> b \<in> {0..255} \<and> M a b \<and>
    (\<forall>i\<in>set is. \<forall>j\<in>{0..255}. i < a \<or> (i = a \<and> j < b) \<longrightarrow> \<not> M i j)"
  using assms(2)
proof (induction "is")
  case Nil
  then show ?case by simp
next
  case (Cons i "is")
  then have later: "\<forall>x\<in>set is. i < x" and sorted: "sorted_wrt (<) is" by simp_all
  have none: "search_b header i [0..MAX_BYTES] = Inr None \<longleftrightarrow> (\<forall>j\<in>{0..255}. \<not> M i j)"
    using search_b_None_iff[of header i "M i" "[0..MAX_BYTES]"] assms(1)
    by (simp add: MAX_BYTES_def)
  have some: "\<And>a' b'. search_b header i [0..MAX_BYTES] = Inr (Some (a', b')) \<longleftrightarrow>
      a' = i \<and> b' \<in> {0..255} \<and> M i b' \<and> (\<forall>j\<in>{0..255}. j < b' \<longrightarrow> \<not> M i j)"
    using search_b_Some_iff[of header i "M i" "[0..MAX_BYTES]"] assms(1)
    by (simp add: MAX_BYTES_def sorted_wrt_upto)
  obtain res where res: "search_b header i [0..MAX_BYTES] = Inr res"
    using search_b_total[of header i "M i"] assms(1) by blast
  show ?case
  proof (cases res)
    case None
    then have no: "\<forall>j\<in>{0..255}. \<not> M i j" using res none by simp
    have "brute_force_loop header (i # is) = brute_force_loop header is"
      using res None by simp
    moreover have "(a \<in> set (i # is) \<and> b \<in> {0..255} \<and> M a b \<and>
        (\<forall>i'\<in>set (i # is). \<forall>j\<in>{0..255}. i' < a \<or> (i' = a \<and> j < b) \<longrightarrow> \<not> M i' j))
      \<longleftrightarrow> (a \<in> set is \<and> b \<in> {0..255} \<and> M a b \<and>
        (\<forall>i'\<in>set is. \<forall>j\<in>{0..255}. i' < a \<or> (i' = a \<and> j < b) \<longrightarrow> \<not> M i' j))"
      using no by auto
    ultimately show ?thesis using Cons.IH[OF sorted] by simp
  next
    case (Some found)
    obtain a' b' where found: "found = (a', b')" by (cases found)
    have sb: "search_b header i [0..MAX_BYTES] = Inr (Some (a', b'))"
      using res Some found by simp
    then have f: "a' = i" "b' \<in> {0..255}" "M i b'" "\<forall>j\<in>{0..255}. j < b' \<longrightarrow> \<not> M i j"
      using some[of a' b'] by simp_all
    have bf: "brute_force_loop header (i # is) = Inr (Some (i, b'))"
      using sb f(1) by simp
    have "(a \<in> set (i # is) \<and> b \<in> {0..255} \<and> M a b \<and>
        (\<forall>i'\<in>set (i # is). \<forall>j\<in>{0..255}. i' < a \<or> (i' = a \<and> j < b) \<longrightarrow> \<not> M i' j))
      \<longleftrightarrow> a = i \<and> b = b'"
    proof
      assume r: "a = i \<and> b = b'"
      then show "a \<in> set (i # is) \<and> b \<in> {0..255} \<and> M a b \<and>
        (\<forall>i'\<in>set (i # is). \<forall>j\<in>{0..255}. i' < a \<or> (i' = a \<and> j < b) \<longrightarrow> \<not> M i' j)"
        using f later by auto
    next
      assume l: "a \<in> set (i # is) \<and> b \<in> {0..255} \<and> M a b \<and>
        (\<forall>i'\<in>set (i # is). \<forall>j\<in>{0..255}. i' < a \<or> (i' = a \<and> j < b) \<longrightarrow> \<not> M i' j)"
      have "\<not> i < a" using l f(2,3) by auto
      then have ai: "a = i" using l later by auto
      have "\<not> b' < b" using l f(2,3) ai by auto
      moreover have "\<not> b < b'" using l f(4) ai by auto
      ultimately show "a = i \<and> b = b'" using ai by simp
    qed
    then show ?thesis using bf by auto
  qed
qed

lemma mod_256_cancel:
  fixes x :: int
  assumes "(a * x) mod 256 = c" and "(b * a) mod 256 = 1"
  shows "x mod 256 = (b * c) mod 256"
proof -
  have "(b * c) mod 256 = (b * ((a * x) mod 256)) mod 256" using assms(1) by simp
  also have "\<dots> = (b * (a * x)) mod 256" by (simp add: mod_mult_right_eq)
  also have "\<dots> = ((b * a) mod 256 * x) mod 256"
    by (simp add: mod_mult_left_eq mult.assoc)
  also have "\<dots> = x mod 256" using assms(2) by simp
  finally show ?thesis by simp
qed

lemma sample_key_unique:
  fixes i j :: int
  assumes "1 \<le> i" "i \<le> 255" "0 \<le> j" "j \<le> 255"
    and m0: "(i * (4 - j)) mod 256 = 255"
    and m1: "(i * (143 - j)) mod 256 = 216"
  shows "i = 171 \<and> j = 7"
proof -
  have "(i * (143 - j) - i * (4 - j)) mod 256 = (216 - 255) mod 256"
    using m0 m1 by (metis mod_diff_eq)
  then have "(139 * i) mod 256 = 217" by (simp add: algebra_simps)
  then have "i mod 256 = (35 * 217) mod 256"
    by (rule mod_256_cancel) simp
  then have i: "i = 171" using assms(1,2) by simp
  have "(171 * (4 - j)) mod 256 = 255" using m0 i by simp
  then have "(4 - j) mod 256 = (3 * 255) mod 256"
    by (rule mod_256_cancel) simp
  then have "(4 - j) mod 256 = 253" by simp
  moreover have "(4 - j) mod 256 = (if j \<le> 4 then 4 - j else 260 - j)"
  proof (cases "j \<le> 4")
    case True
    then show ?thesis using assms(3) by simp
  next
    case False
    have "(4 - j) mod 256 = (260 - j) mod 256"
      using mod_add_self2[of "4 - j" 256] by (simp add: algebra_simps)
    then show ?thesis using False assms(4) by simp
  qed
  ultimately have "j = 7" using assms(3) by (auto split: if_splits)
  with i show ?thesis by simp
qed

lemma brute_force_sample:
  "brute_force (4 # 143 # rest) = Inr (Some (171, 7))"
proof -
  define M :: "int \<Rightarrow> int \<Rightarrow> bool"
    where "M i j \<longleftrightarrow> (i * (4 - j)) mod 256 = 255 \<and> (i * (143 - j)) mod 256 = 216" for i j
  have ht: "\<And>i j. header_test [4, 143] i j = Inr (M i j)"
    using header_test_two[of "[4, 143]"] by (simp add: M_def)
  have here: "M 171 7" by (simp add: M_def)
  have first: "\<forall>i\<in>set [1..255]. \<forall>j\<in>{0..255}. i < 171 \<or> (i = 171 \<and> j < 7) \<longrightarrow> \<not> M i j"
  proof (intro ballI impI notI)
    fix i j :: int
    assume i: "i \<in> set [1..255]" and j: "j \<in> {0..255}"
      and before: "i < 171 \<or> (i = 171 \<and> j < 7)" and m: "M i j"
    have "i = 171 \<and> j = 7"
      using i j m by (intro sample_key_unique) (simp_all add: M_def)
    with before show False by simp
  qed
  have "brute_force_loop [4, 143] [1..255] = Inr (Some (171, 7))"
    unfolding brute_force_loop_Some_iff[of "[4, 143]" M, OF ht sorted_wrt_upto]
    using here first by simp
  then show ?thesis by (simp add: brute_force_def MAX_BYTES_def)
qed

lemma exhaustive_key_sample:
  "exhaustive_key (4 # 143 # rest) = Some (Inr (Some (171, 7)))"
  by (simp add: exhaustive_key_eq_brute_force brute_force_sample)

lemma brute_force_loop_odd:
  "brute_force_loop header is = Inr (Some (i, j)) \<Longrightarrow> odd i"
proof (induction "is")
  case Nil
  then show ?case by simp
next
  case (Cons a "is")
  show ?case
  proof (cases "search_b header a [0..MAX_BYTES]")
    case (Inl e)
    with Cons.prems show ?thesis by simp
  next
    case (Inr res)
    show ?thesis
    proof (cases res)
      case None
      with Inr Cons show ?thesis by simp
    next
      case (Some found)
      with Inr Cons.prems have sb: "search_b header a [0..MAX_BYTES] = Inr (Some (i, j))"
        by simp
      have "a = i" and "header_test header a j = Inr True"
        using search_b_Some_fst[OF sb] search_b_Some_match[OF sb] by simp_all
      then show ?thesis using header_test_even[of i header j] by auto
    qed
  qed
qed

lemma exhaustive_key_loop_odd:
  "exhaustive_key_loop header is = Some (Inr (Some (i, j))) \<Longrightarrow> odd i"
proof (induction "is")
  case Nil
  then show ?case by simp
next
  case (Cons a "is")
  show ?case
  proof (cases "gcd_rec a (MAX_BYTES + 1)")
    case None
    with Cons.prems show ?thesis by simp
  next
    case (Some g)
    show ?thesis
    proof (cases "g \<noteq> 1")
      case True
      with Some Cons show ?thesis by simp
    next
      case False
      show ?thesis
      proof (cases "search_b header a [0..MAX_BYTES]")
        case (Inl e)
        with Some False Cons.prems show ?thesis by simp
      next
        case (Inr res)
        show ?thesis
        proof (cases res)
          case None
          with Inr Some False Cons show ?thesis by simp
        next
          case found: (Some found)
          with Inr Some False Cons.prems
          have sb: "search_b header a [0..MAX_BYTES] = Inr (Some (i, j))" by simp
          have "a = i" and "header_test header a j = Inr True"
            using search_b_Some_fst[OF sb] search_b_Some_match[OF sb] by simp_all
          then show ?thesis using header_test_even[of i header j] by auto
        qed
      qed
    qed
  qed
qed

section \<open>Lemmas about the modular inverse\<close>

declare modulo_formula.simps [simp del]
declare backtrack_loop.simps [simp del]
declare euclid_chain.simps [simp del]

lemma modulo_formula_ordered:
  "p \<le> q \<Longrightarrow> p \<noteq> 0 \<Longrightarrow>
   modulo_formula p q = Inr \<lparr>step_p = p, step_q = q, step_k = q div p, step_r = q mod p\<rparr>"
  by (simp add: modulo_formula.simps)

lemma modulo_formula_zero: "0 \<le> q \<Longrightarrow> modulo_formula 0 q = Inl ZeroDivisionError"
  by (simp add: modulo_formula.simps)

lemma index_from_end_last: "index_from_end (xs @ [x]) (Suc 0) = Inr x"
  by (simp add: index_from_end_def)

lemma mod_pos_less:
  fixes p q :: int
  assumes "0 < p" and "q mod p \<noteq> 0"
  shows "0 < q mod p" and "q mod p < p"
proof -
  have "0 \<le> q mod p" using assms(1) by simp
  with assms(2) show "0 < q mod p" by simp
  show "q mod p < p" using assms(1) by simp
qed

lemma euclid_chain_nonempty: "euclid_chain p q \<noteq> []"
  by (subst euclid_chain.simps) simp

lemma euclid_chain_hd:
  "hd (euclid_chain p q) = \<lparr>step_p = p, step_q = q, step_k = q div p, step_r = q mod p\<rparr>"
  by (subst euclid_chain.simps) simp

lemma fill_gcd_affine_loop_chain:
  assumes "0 < p" and "p \<le> q"
  shows "fill_gcd_affine_loop
           (pre @ [\<lparr>step_p = p, step_q = q, step_k = q div p, step_r = q mod p\<rparr>])
         = Some (Inr (pre @ euclid_chain p q))"
  using assms
proof (induction p q arbitrary: pre rule: euclid_chain.induct)
  case (1 p q)
  let ?s = "\<lparr>step_p = p, step_q = q, step_k = q div p, step_r = q mod p\<rparr>"
  show ?case
  proof (cases "q mod p = 0")
    case True
    then have "euclid_chain p q = [?s]" by (subst euclid_chain.simps) simp
    moreover have "fill_gcd_affine_loop (pre @ [?s]) = Some (Inr (pre @ [?s]))"
      using True by (subst fill_gcd_affine_loop.simps) (simp add: index_from_end_last)
    ultimately show ?thesis by simp
  next
    case False
    let ?r = "q mod p"
    let ?s' = "\<lparr>step_p = ?r, step_q = p, step_k = p div ?r, step_r = p mod ?r\<rparr>"
    have r: "0 < ?r" "?r < p" using False "1.prems"(1) by (simp_all add: mod_pos_less)
    have chain: "euclid_chain p q = ?s # euclid_chain ?r p"
      using False "1.prems" by (subst euclid_chain.simps) simp
    have mf: "modulo_formula ?r p = Inr ?s'"
      using r by (intro modulo_formula_ordered) simp_all
    have "fill_gcd_affine_loop (pre @ [?s]) = fill_gcd_affine_loop ((pre @ [?s]) @ [?s'])"
      using False mf by (subst fill_gcd_affine_loop.simps) (simp add: index_from_end_last)
    also have "\<dots> = Some (Inr ((pre @ [?s]) @ euclid_chain ?r p))"
      using False "1.prems" r by (intro "1.IH") simp_all
    finally show ?thesis using chain by simp
  qed
qed

lemma euclid_chain_length_one:
  assumes "0 < p" and "p \<le> q"
  shows "length (euclid_chain p q) < 2 \<longleftrightarrow> q mod p = 0"
proof (cases "q mod p = 0")
  case True
  then have "euclid_chain p q = [\<lparr>step_p = p, step_q = q, step_k = q div p, step_r = q mod p\<rparr>]"
    by (subst euclid_chain.simps) simp
  with True show ?thesis by simp
next
  case False
  then have "euclid_chain p q =
      \<lparr>step_p = p, step_q = q, step_k = q div p, step_r = q mod p\<rparr> # euclid_chain (q mod p) p"
    using assms by (subst euclid_chain.simps) simp
  moreover have "length (euclid_chain (q mod p) p) \<noteq> 0"
    using euclid_chain_nonempty by simp
  ultimately show ?thesis using False by simp
qed

lemma euclid_chain_last_p:
  assumes "0 < p" and "p \<le> q"
  shows "step_p (last (euclid_chain p q)) = gcd p q \<and> step_r (last (euclid_chain p q)) = 0"
  using assms
proof (induction p q rule: euclid_chain.induct)
  case (1 p q)
  let ?s = "\<lparr>step_p = p, step_q = q, step_k = q div p, step_r = q mod p\<rparr>"
  show ?case
  proof (cases "q mod p = 0")
    case True
    then have "euclid_chain p q = [?s]" by (subst euclid_chain.simps) simp
    moreover have "gcd p q = p" using True "1.prems"
      by (metis abs_of_pos gcd.commute gcd_0_int gcd_red_int)
    ultimately show ?thesis using True by simp
  next
    case False
    let ?r = "q mod p"
    have r: "0 < ?r" "?r < p" using False "1.prems"(1) by (simp_all add: mod_pos_less)
    have chain: "euclid_chain p q = ?s # euclid_chain ?r p"
      using False "1.prems" by (subst euclid_chain.simps) simp
    have "step_p (last (euclid_chain ?r p)) = gcd ?r p \<and> step_r (last (euclid_chain ?r p)) = 0"
      using False "1.prems" r by (intro "1.IH") simp_all
    moreover have "gcd ?r p = gcd p q"
      by (metis gcd.commute gcd_red_int)
    ultimately show ?thesis using chain euclid_chain_nonempty by simp
  qed
qed

lemma euclid_chain_before_last:
  assumes "0 < p" and "p \<le> q" and "q mod p \<noteq> 0"
  shows "index_from_end (euclid_chain p q) 2 = Inr s2 \<Longrightarrow> step_r s2 = gcd p q"
  using assms
proof (induction p q rule: euclid_chain.induct)
  case (1 p q)
  let ?s = "\<lparr>step_p = p, step_q = q, step_k = q div p, step_r = q mod p\<rparr>"
  let ?r = "q mod p"
  have r: "0 < ?r" "?r < p" using "1.prems" by (simp_all add: mod_pos_less)
  have chain: "euclid_chain p q = ?s # euclid_chain ?r p"
    using "1.prems" by (subst euclid_chain.simps) simp
  have g: "gcd ?r p = gcd p q" by (metis gcd.commute gcd_red_int)
  show ?case
  proof (cases "p mod ?r = 0")
    case True
    then have "euclid_chain ?r p = [\<lparr>step_p = ?r, step_q = p, step_k = p div ?r, step_r = p mod ?r\<rparr>]"
      by (subst euclid_chain.simps) simp
    then have "s2 = ?s" using chain "1.prems"(1) by (simp add: index_from_end_def)
    moreover have "gcd ?r p = ?r" using True r
      by (metis abs_of_pos gcd.commute gcd_0_int gcd_red_int)
    ultimately show ?thesis using g by simp
  next
    case False
    have len: "2 \<le> length (euclid_chain ?r p)"
      using euclid_chain_length_one[of ?r p] r False by simp
    then have "index_from_end (euclid_chain ?r p) 2 = Inr s2"
      using chain "1.prems"(1) by (simp add: index_from_end_def Suc_diff_le numeral_2_eq_2)
    then have "step_r s2 = gcd ?r p"
      using "1.prems" r False by (intro "1.IH") simp_all
    then show ?thesis using g by simp
  qed
qed

lemma fill_gcd_affine_chain:
  assumes "0 < m" and "m < n"
  shows "fill_gcd_affine m n =
    (if n mod m = 0 then Some (Inl IndexError)
     else if gcd m n \<noteq> 1 then Some (Inl (AffineException 3 (Some (euclid_chain m n))))
     else Some (Inr (euclid_chain m n)))"
proof -
  let ?s = "\<lparr>step_p = m, step_q = n, step_k = n div m, step_r = n mod m\<rparr>"
  have mf: "modulo_formula m n = Inr ?s"
    using assms by (intro modulo_formula_ordered) simp_all
  have loop: "fill_gcd_affine_loop [?s] = Some (Inr (euclid_chain m n))"
    using fill_gcd_affine_loop_chain[of m n "[]"] assms by simp
  show ?thesis
  proof (cases "n mod m = 0")
    case True
    then have "length (euclid_chain m n) < 2"
      using euclid_chain_length_one[of m n] assms by simp
    then have "index_from_end (euclid_chain m n) 2 = Inl IndexError"
      by (simp add: index_from_end_def)
    then show ?thesis using True assms mf loop by (simp add: fill_gcd_affine_def)
  next
    case False
    then have "\<not> length (euclid_chain m n) < 2"
      using euclid_chain_length_one[of m n] assms by simp
    then obtain s2 where s2: "index_from_end (euclid_chain m n) 2 = Inr s2"
      by (simp add: index_from_end_def)
    then have "step_r s2 = gcd m n"
      using euclid_chain_before_last[of m n s2] assms False by simp
    then show ?thesis using False assms mf loop s2 by (simp add: fill_gcd_affine_def)
  qed
qed

lemma backtrack_loop_snoc:
  "backtrack_loop (fs @ [f], ident) = backtrack_loop (fs, backtrack_step f ident)"
  by (subst backtrack_loop.simps) (simp add: backtrack_iteration_def)

lemma backtrack_loop_foldr:
  "backtrack_loop (fs, ident) = foldr backtrack_step fs ident"
proof (induction fs arbitrary: ident rule: rev_induct)
  case Nil
  show ?case by (subst backtrack_loop.simps) simp
next
  case (snoc f fs)
  then show ?case by (simp add: backtrack_loop_snoc)
qed

lemma last_take_nth:
  assumes "0 < n" and "n \<le> length xs"
  shows "last (take n xs) = xs ! (n - 1)"
proof -
  have ne: "take n xs \<noteq> []" using assms by auto
  have len: "length (take n xs) = n" using assms by simp
  have "last (take n xs) = take n xs ! (n - 1)" using last_conv_nth[OF ne] len by simp
  also have "\<dots> = xs ! (n - 1)" using assms by (intro nth_take) simp
  finally show ?thesis .
qed

lemma drop_pred_nth:
  assumes "0 < n" and "n \<le> length xs"
  shows "drop (n - 1) xs = xs ! (n - 1) # drop n xs"
proof -
  obtain n' where n': "n = Suc n'" using assms(1) by (cases n) auto
  then have "n' < length xs" using assms(2) by simp
  then have "xs ! n' # drop (Suc n') xs = drop n' xs" by (rule Cons_nth_drop_Suc)
  then show ?thesis using n' by simp
qed

lemma backtrack_iteration_take:
  assumes "0 < n" and "n \<le> length fs"
  shows "backtrack_iteration (take n fs, foldr backtrack_step (drop n fs) ident) =
    (take (n - 1) fs, foldr backtrack_step (drop (n - 1) fs) ident)"
proof -
  have "butlast (take n fs) = take (n - 1) fs" using assms(2) by (rule butlast_take)
  moreover have "last (take n fs) = fs ! (n - 1)" using assms by (rule last_take_nth)
  moreover have "drop (n - 1) fs = fs ! (n - 1) # drop n fs" using assms by (rule drop_pred_nth)
  ultimately show ?thesis by (simp add: backtrack_iteration_def)
qed

lemma backtrack_iteration_funpow:
  assumes "t \<le> length fs"
  shows "(backtrack_iteration ^^ t) (fs, ident) =
    (take (length fs - t) fs, foldr backtrack_step (drop (length fs - t) fs) ident)"
  using assms
proof (induction t)
  case 0
  then show ?case by simp
next
  case (Suc t)
  let ?n = "length fs - t"
  have n: "0 < ?n" "?n \<le> length fs" using Suc.prems by simp_all
  have "(backtrack_iteration ^^ Suc t) (fs, ident) =
      backtrack_iteration ((backtrack_iteration ^^ t) (fs, ident))"
    by simp
  also have "\<dots> = backtrack_iteration
      (take ?n fs, foldr backtrack_step (drop ?n fs) ident)"
    using Suc by simp
  also have "\<dots> = (take (?n - 1) fs, foldr backtrack_step (drop (?n - 1) fs) ident)"
    using n by (rule backtrack_iteration_take)
  finally show ?case by simp
qed

lemma euclid_chain_exact:
  assumes "q mod p = 0"
  shows "euclid_chain p q = [\<lparr>step_p = p, step_q = q, step_k = q div p, step_r = q mod p\<rparr>]"
  using assms by (subst euclid_chain.simps) simp

lemma euclid_chain_step:
  assumes "0 < p" and "p \<le> q" and "q mod p \<noteq> 0"
  shows "euclid_chain p q =
    \<lparr>step_p = p, step_q = q, step_k = q div p, step_r = q mod p\<rparr> # euclid_chain (q mod p) p"
  using assms by (subst euclid_chain.simps) simp

lemma gcd_mod_step:
  fixes p q :: int
  shows "gcd (q mod p) p = gcd p q"
  by (metis gcd.commute gcd_red_int)

lemma gcd_exact:
  fixes p q :: int
  assumes "0 < p" and "q mod p = 0"
  shows "gcd p q = p"
proof -
  have "p dvd q" using assms(2) by (simp add: dvd_eq_mod_eq_0)
  then have "gcd p q = \<bar>p\<bar>" by (simp add: gcd_proj1_iff)
  then show ?thesis using assms(1) by simp
qed

lemma backtrack_exact:
  assumes "q mod p = 0"
  shows "foldr backtrack_step (euclid_chain p q) None = None"
  using assms by (simp add: euclid_chain_exact backtrack_step_def)

lemma backtrack_first:
  assumes "step_r f \<noteq> 0"
  shows "backtrack_step f None =
    Some \<lparr>bz_m = step_p f, bz_x = - step_k f, bz_n = step_q f, bz_y = 1\<rparr>"
  using assms by (simp add: backtrack_step_def)

lemma backtrack_next:
  assumes "step_r f \<noteq> 0"
  shows "backtrack_step f (Some B) =
    Some \<lparr>bz_m = bz_n B, bz_x = bz_y B - bz_x B * step_k f, bz_n = step_q f, bz_y = bz_x B\<rparr>"
  using assms by (simp add: backtrack_step_def Let_def)

lemma backtrack_euclid:
  assumes "0 < p" and "p \<le> q" and "q mod p \<noteq> 0" and "gcd p q = 1"
  shows "\<exists>B. foldr backtrack_step (euclid_chain p q) None = Some B
    \<and> bz_m B = p \<and> bz_n B = q \<and> p * bz_x B + q * bz_y B = 1
    \<and> \<bar>bz_x B\<bar> < q \<and> \<bar>bz_y B\<bar> < p"
  using assms
proof (induction p q rule: euclid_chain.induct)
  case (1 p q)
  let ?r = "q mod p" and ?k = "q div p"
  let ?s = "\<lparr>step_p = p, step_q = q, step_k = ?k, step_r = ?r\<rparr>"
  have r: "0 < ?r" "?r < p" using "1.prems" by (simp_all add: mod_pos_less)
  have chain: "euclid_chain p q = ?s # euclid_chain ?r p"
    using "1.prems" by (intro euclid_chain_step)
  have g: "gcd ?r p = 1" using "1.prems"(4) by (simp add: gcd_mod_step)
  have qeq: "q = ?k * p + ?r" by simp
  have k: "0 \<le> ?k" using "1.prems"(1,2) by (simp add: pos_imp_zdiv_nonneg_iff)
  have fold: "foldr backtrack_step (euclid_chain p q) None =
      backtrack_step ?s (foldr backtrack_step (euclid_chain ?r p) None)"
    using chain by simp
  show ?case
  proof (cases "p mod ?r = 0")
    case True
    have "gcd ?r p = ?r" using r(1) True by (rule gcd_exact)
    then have r1: "?r = 1" using g by simp
    have res: "foldr backtrack_step (euclid_chain p q) None =
        Some \<lparr>bz_m = p, bz_x = - ?k, bz_n = q, bz_y = 1\<rparr>"
      using fold backtrack_exact[OF True] backtrack_first[of ?s] "1.prems"(3) by simp
    have eq: "p * (- ?k) + q * 1 = 1" using qeq r1 by (simp add: algebra_simps)
    have "?k * 1 \<le> ?k * p" using k r(1) r1 "1.prems"(1) by (intro mult_left_mono) simp_all
    moreover have "?k * p < q" using qeq r1 by linarith
    ultimately have kq: "\<bar>- ?k\<bar> < q" using k by simp
    have "\<bar>1::int\<bar> < p" using r r1 by simp
    with res eq kq show ?thesis by simp
  next
    case False
    obtain B' where B': "foldr backtrack_step (euclid_chain ?r p) None = Some B'"
        and m': "bz_m B' = ?r" and n': "bz_n B' = p"
        and eq': "?r * bz_x B' + p * bz_y B' = 1"
        and bx': "\<bar>bz_x B'\<bar> < p" and by': "\<bar>bz_y B'\<bar> < ?r"
      using "1.IH"[OF _ r(1) _ False g] "1.prems" r by auto
    let ?x = "bz_y B' - bz_x B' * ?k"
    have res: "foldr backtrack_step (euclid_chain p q) None =
        Some \<lparr>bz_m = p, bz_x = ?x, bz_n = q, bz_y = bz_x B'\<rparr>"
      using fold B' backtrack_next[of ?s B'] "1.prems"(3) n' by simp
    have "p * ?x + q * bz_x B' = p * bz_y B' + bz_x B' * (q - ?k * p)"
      by (simp add: algebra_simps)
    also have "q - ?k * p = ?r" using qeq by linarith
    finally have eq: "p * ?x + q * bz_x B' = 1" using eq' by (simp add: algebra_simps)
    have "\<bar>?x\<bar> \<le> \<bar>bz_y B'\<bar> + \<bar>bz_x B' * ?k\<bar>" by (rule abs_triangle_ineq4)
    also have "\<bar>bz_x B' * ?k\<bar> = \<bar>bz_x B'\<bar> * ?k" using k by (simp add: abs_mult)
    also have "\<bar>bz_x B'\<bar> * ?k \<le> p * ?k"
      using bx' k by (intro mult_right_mono) simp_all
    finally have "\<bar>?x\<bar> \<le> \<bar>bz_y B'\<bar> + p * ?k" by simp
    also have "\<dots> < ?r + p * ?k" using by' by linarith
    also have "\<dots> = q" using qeq by (simp add: algebra_simps)
    finally have bx: "\<bar>?x\<bar> < q" .
    from res eq bx bx' show ?thesis by simp
  qed
qed

lemma coprime_not_dvd:
  fixes m n :: int
  assumes "1 < m" and "gcd m n = 1"
  shows "n mod m \<noteq> 0"
proof
  assume "n mod m = 0"
  then have "gcd m n = m" using assms(1) by (intro gcd_exact) simp_all
  with assms show False by simp
qed

lemma m_inverse_affine_backtrack:
  assumes "0 < m" and "m < n" and "gcd m n = 1" and "n mod m \<noteq> 0"
  shows "\<exists>B. fill_gcd_affine m n = Some (Inr (euclid_chain m n))
    \<and> backtrack_loop (euclid_chain m n, None) = Some B
    \<and> bz_m B = m \<and> bz_n B = n \<and> m * bz_x B + n * bz_y B = 1
    \<and> \<bar>bz_x B\<bar> < n \<and> \<bar>bz_y B\<bar> < m
    \<and> m_inverse_affine m n = Some (Inr (if bz_x B < 0 then n + bz_x B else bz_x B))"
proof -
  have fill: "fill_gcd_affine m n = Some (Inr (euclid_chain m n))"
    using assms by (simp add: fill_gcd_affine_chain)
  obtain B where B: "foldr backtrack_step (euclid_chain m n) None = Some B"
      and props: "bz_m B = m" "bz_n B = n" "m * bz_x B + n * bz_y B = 1"
        "\<bar>bz_x B\<bar> < n" "\<bar>bz_y B\<bar> < m"
    using backtrack_euclid[of m n] assms by auto
  have loop: "backtrack_loop (euclid_chain m n, None) = Some B"
    using B by (simp add: backtrack_loop_foldr)
  have "m_inverse_affine m n = Some (Inr (if bz_x B < 0 then n + bz_x B else bz_x B))"
    using assms(2) fill loop by (simp add: m_inverse_affine_def)
  with fill loop props show ?thesis by blast
qed

lemma bezout_gives_inverse:
  fixes m n x y :: int
  assumes "m * x + n * y = 1" and "1 < n"
  shows "(m * x) mod n = 1" and "(m * (n + x)) mod n = 1"
proof -
  have "m * x = 1 + n * (- y)" using assms(1) by (simp add: algebra_simps)
  then have "(m * x) mod n = (1 + n * (- y)) mod n" by simp
  also have "\<dots> = 1 mod n" by (rule mod_mult_self2)
  finally show 1: "(m * x) mod n = 1" using assms(2) by simp
  have "m * (n + x) = m * x + n * m" by (simp add: algebra_simps)
  then have "(m * (n + x)) mod n = (m * x + n * m) mod n" by simp
  also have "\<dots> = (m * x) mod n" by (rule mod_mult_self2)
  finally show "(m * (n + x)) mod n = 1" using 1 by simp
qed

lemma m_inverse_affine_correct:
  assumes "0 < m" and "m < n" and "gcd m n = 1" and "n mod m \<noteq> 0"
  shows "\<exists>x. m_inverse_affine m n = Some (Inr x) \<and> 0 \<le> x \<and> x < n \<and> (m * x) mod n = 1"
proof -
  from m_inverse_affine_backtrack[OF assms] obtain B where
    all: "fill_gcd_affine m n = Some (Inr (euclid_chain m n))
      \<and> backtrack_loop (euclid_chain m n, None) = Some B
      \<and> bz_m B = m \<and> bz_n B = n \<and> m * bz_x B + n * bz_y B = 1
      \<and> \<bar>bz_x B\<bar> < n \<and> \<bar>bz_y B\<bar> < m
      \<and> m_inverse_affine m n = Some (Inr (if bz_x B < 0 then n + bz_x B else bz_x B))" ..
  then have res: "m_inverse_affine m n = Some (Inr (if bz_x B < 0 then n + bz_x B else bz_x B))"
      and eq: "m * bz_x B + n * bz_y B = 1" and bound: "\<bar>bz_x B\<bar> < n"
    by simp_all
  have n: "1 < n" using assms(1,2) by simp
  let ?x = "if bz_x B < 0 then n + bz_x B else bz_x B"
  have "0 \<le> ?x" "?x < n" using bound by auto
  moreover have "(m * ?x) mod n = 1"
    using bezout_gives_inverse[OF eq n] by simp
  ultimately show ?thesis using res by blast
qed

lemma m_inverse_affine_returns:
  assumes "0 \<le> m"
  shows "\<exists>res. m_inverse_affine m n = Some res"
proof (cases "n \<le> m")
  case True
  then show ?thesis by (simp add: m_inverse_affine_def)
next
  case False
  show ?thesis
  proof (cases "m = 0")
    case True
    then have "fill_gcd_affine m n = Some (Inl ZeroDivisionError)"
      using False by (simp add: fill_gcd_affine_def modulo_formula_zero)
    then show ?thesis using False by (simp add: m_inverse_affine_def)
  next
    case nz: False
    then have "0 < m" "m < n" using assms False by simp_all
    then have "\<exists>r. fill_gcd_affine m n = Some r"
      by (simp add: fill_gcd_affine_chain)
    then obtain r where "fill_gcd_affine m n = Some r" by blast
    then show ?thesis using False
      by (cases r) (auto simp: m_inverse_affine_def split: option.splits)
  qed
qed

lemma euclid_chain_drop:
  assumes "0 < p" and "p \<le> q" and "j < length (euclid_chain p q)"
  shows "\<exists>p' q'. drop j (euclid_chain p q) = euclid_chain p' q'
    \<and> 0 < p' \<and> p' \<le> q' \<and> gcd p' q' = gcd p q"
  using assms
proof (induction j arbitrary: p q)
  case 0
  then show ?case by auto
next
  case (Suc j)
  have nz: "q mod p \<noteq> 0"
  proof
    assume "q mod p = 0"
    then have "length (euclid_chain p q) = 1" by (simp add: euclid_chain_exact)
    with Suc.prems(3) show False by simp
  qed
  let ?r = "q mod p"
  have r: "0 < ?r" "?r < p" using Suc.prems(1) nz by (simp_all add: mod_pos_less)
  have chain: "euclid_chain p q =
      \<lparr>step_p = p, step_q = q, step_k = q div p, step_r = ?r\<rparr> # euclid_chain ?r p"
    using Suc.prems(1,2) nz by (rule euclid_chain_step)
  then have "j < length (euclid_chain ?r p)" using Suc.prems(3) by simp
  then obtain p' q' where "drop j (euclid_chain ?r p) = euclid_chain p' q'"
      "0 < p'" "p' \<le> q'" "gcd p' q' = gcd ?r p"
    using Suc.IH[of ?r p] r by auto
  then show ?case using chain by (auto simp: gcd_mod_step)
qed

lemma backtrack_suffix_invariant:
  assumes "0 < p" and "p \<le> q" and "gcd p q = 1"
  shows "case foldr backtrack_step (drop j (euclid_chain p q)) None of
      None \<Rightarrow> True
    | Some B \<Rightarrow> bz_m B * bz_x B + bz_n B * bz_y B = 1 \<and> gcd (bz_m B) (bz_n B) = 1"
proof (cases "j < length (euclid_chain p q)")
  case False
  then show ?thesis by simp
next
  case True
  then obtain p' q' where d: "drop j (euclid_chain p q) = euclid_chain p' q'"
      and pq: "0 < p'" "p' \<le> q'" "gcd p' q' = 1"
    using euclid_chain_drop[OF assms(1,2) True] assms(3) by auto
  show ?thesis
  proof (cases "q' mod p' = 0")
    case True
    then show ?thesis using d by (simp add: backtrack_exact)
  next
    case False
    then obtain B where "foldr backtrack_step (euclid_chain p' q') None = Some B"
        "bz_m B = p'" "bz_n B = q'" "p' * bz_x B + q' * bz_y B = 1"
      using backtrack_euclid[of p' q'] pq by auto
    then show ?thesis using d pq(3) by simp
  qed
qed

lemma backtrack_states_invariant:
  assumes "0 < m" and "m \<le> n" and "gcd m n = 1" and "t \<le> length (euclid_chain m n)"
  shows "case snd ((backtrack_iteration ^^ t) (euclid_chain m n, None)) of
        None \<Rightarrow> True
      | Some B \<Rightarrow> bz_m B * bz_x B + bz_n B * bz_y B = gcd (bz_m B) (bz_n B)
          \<and> gcd (bz_m B) (bz_n B) = 1"
proof -
  let ?chain = "euclid_chain m n"
  have st: "snd ((backtrack_iteration ^^ t) (?chain, None)) =
      foldr backtrack_step (drop (length ?chain - t) ?chain) None"
    using assms(4) by (simp add: backtrack_iteration_funpow)
  have "case foldr backtrack_step (drop (length ?chain - t) ?chain) None of
      None \<Rightarrow> True
    | Some B \<Rightarrow> bz_m B * bz_x B + bz_n B * bz_y B = 1 \<and> gcd (bz_m B) (bz_n B) = 1"
    using assms(1-3) by (rule backtrack_suffix_invariant)
  then show ?thesis
    unfolding st by (cases "foldr backtrack_step (drop (length ?chain - t) ?chain) None") simp_all
qed

lemma m_inverse_affine_divisor:
  assumes "0 < m" and "m < n" and "n mod m = 0"
  shows "m_inverse_affine m n = Some (Inl IndexError)"
  using assms by (simp add: m_inverse_affine_def fill_gcd_affine_chain)

lemma m_inverse_affine_3: "m_inverse_affine 3 256 = Some (Inr 171)"
  by (simp add: m_inverse_affine_def fill_gcd_affine_def modulo_formula_ordered
      fill_gcd_affine_loop.simps index_from_end_def
      backtrack_loop.simps backtrack_iteration_def backtrack_step_def)

lemma decrypt_affine_roundtrip:
  assumes "1 < m" and "m < 256" and "gcd m 256 = 1"
  shows "\<exists>x. m_inverse_affine m 256 = Some (Inr x) \<and> 0 \<le> x \<and> x < 256
    \<and> (m * x) mod 256 = 1
    \<and> decrypt_affine x 256 b ((m * P + b) mod 256) = Inr (P mod 256)"
proof -
  have nd: "256 mod m \<noteq> 0" using assms(1,3) by (rule coprime_not_dvd)
  obtain x where x: "m_inverse_affine m 256 = Some (Inr x)" "0 \<le> x" "x < 256"
      and inv: "(m * x) mod 256 = 1"
    using m_inverse_affine_correct[of m 256] assms nd by auto
  have a: "((m * P + b) mod 256 - b) mod 256 = (m * P) mod 256"
    by (simp add: mod_diff_left_eq)
  have c: "x * (m * P) = (m * x) * P" by simp
  have "(x * ((m * P + b) mod 256 - b)) mod 256
      = (x * (((m * P + b) mod 256 - b) mod 256)) mod 256"
    by (simp add: mod_mult_right_eq)
  also have "\<dots> = (x * ((m * P) mod 256)) mod 256" by (simp only: a)
  also have "\<dots> = (x * (m * P)) mod 256" by (simp add: mod_mult_right_eq)
  also have "\<dots> = ((m * x) * P) mod 256" by (simp only: c)
  also have "\<dots> = ((m * x) mod 256 * P) mod 256" by (simp add: mod_mult_left_eq)
  also have "\<dots> = P mod 256" using inv by simp
  finally have "decrypt_affine x 256 b ((m * P + b) mod 256) = Inr (P mod 256)"
    by (simp add: decrypt_affine_def)
  with x inv show ?thesis by blast
qed

section \<open>Lemmas about the known-plaintext solver\<close>

lemma m_inverse_affine_code_3:
  assumes "m_inverse_affine p n = Some (Inl (AffineException 3 dump))" and "0 \<le> p"
  shows "0 < p \<and> p < n \<and> n mod p \<noteq> 0 \<and> gcd p n \<noteq> 1 \<and> dump = Some (euclid_chain p n)"
proof -
  have lt: "p < n"
  proof (rule ccontr)
    assume "\<not> p < n"
    then have "m_inverse_affine p n = Some (Inl (AffineException 4 None))"
      by (simp add: m_inverse_affine_def)
    with assms(1) show False by simp
  qed
  have pos: "0 < p"
  proof (rule ccontr)
    assume "\<not> 0 < p"
    then have "p = 0" using assms(2) by simp
    then have "m_inverse_affine p n = Some (Inl ZeroDivisionError)"
      using lt by (simp add: m_inverse_affine_def fill_gcd_affine_def modulo_formula_zero)
    with assms(1) show False by simp
  qed
  have fill: "fill_gcd_affine p n =
      (if n mod p = 0 then Some (Inl IndexError)
       else if gcd p n \<noteq> 1 then Some (Inl (AffineException 3 (Some (euclid_chain p n))))
       else Some (Inr (euclid_chain p n)))"
    using pos lt by (rule fill_gcd_affine_chain)
  have nd: "n mod p \<noteq> 0"
  proof
    assume "n mod p = 0"
    then have "m_inverse_affine p n = Some (Inl IndexError)"
      using pos lt by (rule m_inverse_affine_divisor[rotated 2])
    with assms(1) show False by simp
  qed
  have g: "gcd p n \<noteq> 1"
  proof
    assume "gcd p n = 1"
    from m_inverse_affine_correct[OF pos lt this nd]
    obtain x where "m_inverse_affine p n = Some (Inr x)" by blast
    with assms(1) show False by simp
  qed
  have "m_inverse_affine p n = Some (Inl (AffineException 3 (Some (euclid_chain p n))))"
    using lt fill nd g by (simp add: m_inverse_affine_def)
  with assms(1) have "dump = Some (euclid_chain p n)" by simp
  with pos lt nd g show ?thesis by simp
qed

lemma euclid_chain_index_last:
  "index_from_end (euclid_chain p q) (Suc 0) = Inr (last (euclid_chain p q))"
proof -
  have ne: "euclid_chain p q \<noteq> []" by (rule euclid_chain_nonempty)
  then have "0 < length (euclid_chain p q)" by simp
  then show ?thesis using last_conv_nth[OF ne] by (simp add: index_from_end_def Suc_le_eq)
qed

lemma gcd_256_bounds:
  fixes p :: int
  assumes "0 < p"
  shows "0 < gcd p 256" and "0 < 256 div gcd p 256"
proof -
  show pos: "0 < gcd p 256" using assms by (simp add: gcd_pos_int)
  have "gcd p 256 dvd 256" by simp
  then have "gcd p 256 \<le> 256" by (intro zdvd_imp_le) simp_all
  then show "0 < 256 div gcd p 256" using pos by (simp add: pos_imp_zdiv_pos_iff)
qed

lemma solve_m_code_3:
  assumes "0 < p" and "p < 256" and "256 mod p \<noteq> 0" and "gcd p 256 \<noteq> 1"
  shows "solve_m p c 256 =
    (if c mod gcd p 256 = 0 then
       (case m_inverse_affine (p div gcd p 256) (256 div gcd p 256) of
          None \<Rightarrow> None
        | Some (Inl e) \<Rightarrow> Some (Inl e)
        | Some (Inr p_inverse) \<Rightarrow>
            Some (Inr (Some (((c div gcd p 256) * p_inverse) mod (256 div gcd p 256)))))
     else Some (Inl (AffineException 7 None)))"
proof -
  have fill: "fill_gcd_affine p 256 = Some (Inl (AffineException 3 (Some (euclid_chain p 256))))"
    using assms by (simp add: fill_gcd_affine_chain)
  have inv: "m_inverse_affine p 256 = Some (Inl (AffineException 3 (Some (euclid_chain p 256))))"
    using assms(2) fill by (simp add: m_inverse_affine_def)
  have lastp: "step_p (last (euclid_chain p 256)) = gcd p 256"
    using euclid_chain_last_p[of p 256] assms(1,2) by simp
  have g: "gcd p 256 \<noteq> 0" "256 div gcd p 256 \<noteq> 0"
    using gcd_256_bounds[OF assms(1)] by simp_all
  show ?thesis
    unfolding solve_m_def inv
    using g by (auto simp: euclid_chain_index_last lastp Let_def split: option.splits sum.splits)
qed

lemma solve_m_returns:
  assumes "0 \<le> p"
  shows "\<exists>res. solve_m p c 256 = Some res \<and> (\<forall>m. res = Inr (Some m) \<longrightarrow> 0 \<le> m)"
proof -
  obtain r0 where r0: "m_inverse_affine p 256 = Some r0"
    using m_inverse_affine_returns[OF assms] by blast
  show ?thesis
  proof (cases r0)
    case (Inr p_inverse)
    then show ?thesis using r0 by (simp add: solve_m_def)
  next
    case (Inl e)
    show ?thesis
    proof (cases e)
      case (AffineException code dump)
      show ?thesis
      proof (cases "code = 3")
        case False
        then show ?thesis using r0 Inl AffineException by (simp add: solve_m_def)
      next
        case True
        then have "m_inverse_affine p 256 = Some (Inl (AffineException 3 dump))"
          using r0 Inl AffineException by simp
        then have p: "0 < p" "p < 256" "256 mod p \<noteq> 0" "gcd p 256 \<noteq> 1"
          using m_inverse_affine_code_3[of p 256 dump] assms by simp_all
        have "0 \<le> p div gcd p 256"
          using p(1) gcd_256_bounds(1)[OF p(1)] by (simp add: pos_imp_zdiv_nonneg_iff)
        then obtain r1 where r1: "m_inverse_affine (p div gcd p 256) (256 div gcd p 256) = Some r1"
          using m_inverse_affine_returns by blast
        have md: "0 < 256 div gcd p 256" using gcd_256_bounds(2)[OF p(1)] .
        show ?thesis
          unfolding solve_m_code_3[OF p]
          using r1 md by (cases r1) simp_all
      qed
    qed (use r0 Inl in \<open>simp_all add: solve_m_def\<close>)
  qed
qed

lemma solve_samples_returns:
  "\<exists>res. solve_samples p1 c1 p2 c2 = Some res"
proof -
  have inv: "\<And>m. 0 \<le> m \<Longrightarrow> m_inverse_affine m (MAX_BYTES + 1) \<noteq> None"
    using m_inverse_affine_returns by fastforce
  have sm: "\<And>p c. 0 \<le> p \<Longrightarrow> solve_m p c (MAX_BYTES + 1) \<noteq> None"
    using solve_m_returns by (fastforce simp: MAX_BYTES_def)
  have nn: "0 \<le> m" if "0 \<le> p" and e: "solve_m p c (MAX_BYTES + 1) = Some (Inr (Some m))"
    for p c m
  proof -
    from solve_m_returns[OF that(1), of c] obtain res where
      "solve_m p c 256 = Some res" and "\<forall>m. res = Inr (Some m) \<longrightarrow> 0 \<le> m" by blast
    with e show ?thesis by (simp add: MAX_BYTES_def)
  qed
  have "solve_samples p1 c1 p2 c2 \<noteq> None"
  proof (cases "p1 < p2")
    case True
    then have p: "0 \<le> p2 - p1" by simp
    show ?thesis
      using True sm[OF p, of "c2 - c1"] nn[OF p, of "c2 - c1"] inv
      by (fastforce simp: solve_samples_def Let_def split: option.splits sum.splits)
  next
    case False
    then have p: "0 \<le> p1 - p2" by simp
    show ?thesis
      using False sm[OF p, of "c1 - c2"] nn[OF p, of "c1 - c2"] inv
      by (fastforce simp: solve_samples_def Let_def split: option.splits sum.splits)
  qed
  then show ?thesis by blast
qed

lemma solve_samples_no_solution:
  assumes "p2 \<le> p1" and "0 < p1 - p2" and "p1 - p2 < 256"
    and "256 mod (p1 - p2) \<noteq> 0" and "gcd (p1 - p2) 256 \<noteq> 1"
    and "(c1 - c2) mod gcd (p1 - p2) 256 \<noteq> 0"
  shows "solve_samples p1 c1 p2 c2 = Some (Inl (AffineException 7 None))"
proof -
  have "solve_m (p1 - p2) (c1 - c2) 256 = Some (Inl (AffineException 7 None))"
    using assms(6) by (simp add: solve_m_code_3[OF assms(2-5)])
  then show ?thesis using assms(1)
    by (simp add: solve_samples_def MAX_BYTES_def Let_def)
qed

lemma analyze_known_plaintext_popped:
  assumes "length kp = length kc" and "2 \<le> length kp"
    and "pop kp i1 = Inr (fp, kp1)" and "pop kc i1 = Inr (fc, kc1)"
    and "pop kp1 i2 = Inr (sp, kp2)" and "pop kc1 i2 = Inr (sc, kc2)"
  shows "analyze_known_plaintext i1 i2 kp kc =
    (case solve_samples fp fc sp sc of None \<Rightarrow> None | Some res \<Rightarrow> Some (res, kp2, kc2))"
  using assms(1,2) by (simp add: analyze_known_plaintext_def assms(3-6))

lemma pop_in_range:
  assumes "i < length xs"
  shows "pop xs i = Inr (xs ! i, take i xs @ drop (Suc i) xs)"
    and "length (take i xs @ drop (Suc i) xs) = length xs - 1"
  using assms by (auto simp: pop_def)

text \<open>Two equal plaintext bytes: the first division is by zero.\<close>

lemma analyze_known_plaintext_equal_bytes:
  "analyze_known_plaintext 0 0 [5, 5] [1, 2] = Some (Inl ZeroDivisionError, [], [])"
  by (simp add: analyze_known_plaintext_def pop_def solve_samples_def solve_m_def
      MAX_BYTES_def m_inverse_affine_def fill_gcd_affine_def modulo_formula_zero)

section \<open>The claims\<close>

text \<open>
  Claim C1: for every \<open>m\<close> in \<open>[1, 255]\<close> with \<open>gcd m 256 = 1\<close>,
  \<^verbatim>\<open>m_inverse_affine(m, 256)\<close> returns some \<open>x\<close> in \<open>[0, 256)\<close> with
  \<open>(m * x) mod 256 = 1\<close> and does not raise. The code breaks this at \<open>m = 1\<close>: the
  chain of \<open>(1, 256)\<close> has the single step \<open>256 = 256 * 1 + 0\<close>, and
  \<^verbatim>\<open>gcd_affine[-2]\<close> in \<^verbatim>\<open>fill_gcd_affine\<close> raises IndexError. For every other such
  \<open>m\<close> the property holds (\<open>m_inverse_affine_correct\<close> with \<open>coprime_not_dvd\<close>).
\<close>

theorem m_inverse_affine_one_raises:
  "m_inverse_affine 1 256 = Some (Inl IndexError)"
  by (simp add: m_inverse_affine_divisor)

text \<open>
  Claim C2: for every \<open>m\<close> in \<open>[1, 255]\<close> coprime with 256, every \<open>b\<close> and every
  plaintext byte \<open>P\<close>, \<^verbatim>\<open>decrypt_affine\<close> with \<^verbatim>\<open>m_inverse_affine(m, 256)\<close>, modulus
  256 and shift \<open>b\<close> maps \<open>(m * P + b) mod 256\<close> back to \<open>P\<close>. The code breaks this at
  \<open>m = 1\<close> (here with \<open>b = 7\<close>, \<open>P = 5\<close>): \<^verbatim>\<open>m_inverse_affine(1, 256)\<close> returns no
  inverse to decrypt with. For \<open>1 < m\<close> the round trip holds
  (\<open>decrypt_affine_roundtrip\<close>).
\<close>

theorem roundtrip_fails_for_one:
  "\<not> (\<exists>x. m_inverse_affine 1 256 = Some (Inr x)
         \<and> decrypt_affine x 256 7 ((1 * 5 + 7) mod 256) = Inr 5)"
  by (simp add: m_inverse_affine_divisor)

text \<open>
  Claim C3: on a ciphertext of at least two bytes \<^verbatim>\<open>brute_force\<close> raises nothing and
  returns the first pair \<open>(i, j)\<close>, in the order \<open>i\<close> from 1 to 255 (outer) and \<open>j\<close>
  from 0 to 255 (inner), for which \<^verbatim>\<open>decrypt_affine(i, 256, j, header[0])\<close> is \<open>0xFF\<close>
  and \<^verbatim>\<open>decrypt_affine(i, 256, j, header[1])\<close> is \<open>0xD8\<close>; it returns
  \<^verbatim>\<open>(None, None)\<close> exactly when no pair of that range passes both tests; and on every
  ciphertext that starts with the bytes 4 and 143 it returns \<open>(171, 7)\<close>.
\<close>

theorem brute_force_first_match:
  assumes "2 \<le> length ciphertext"
  shows "(\<exists>res. brute_force ciphertext = Inr res)
    \<and> (brute_force ciphertext = Inr None \<longleftrightarrow>
         (\<forall>i\<in>{1..255}. \<forall>j\<in>{0..255}.
            \<not> (decrypt_affine i 256 j (ciphertext ! 0) = Inr 255
               \<and> decrypt_affine i 256 j (ciphertext ! 1) = Inr 216)))
    \<and> (\<forall>i j. brute_force ciphertext = Inr (Some (i, j)) \<longleftrightarrow>
         i \<in> {1..255} \<and> j \<in> {0..255}
         \<and> decrypt_affine i 256 j (ciphertext ! 0) = Inr 255
         \<and> decrypt_affine i 256 j (ciphertext ! 1) = Inr 216
         \<and> (\<forall>i'\<in>{1..255}. \<forall>j'\<in>{0..255}.
               i' < i \<or> (i' = i \<and> j' < j) \<longrightarrow>
               \<not> (decrypt_affine i' 256 j' (ciphertext ! 0) = Inr 255
                  \<and> decrypt_affine i' 256 j' (ciphertext ! 1) = Inr 216)))
    \<and> brute_force (4 # 143 # rest) = Inr (Some (171, 7))"
proof -
  define M :: "int \<Rightarrow> int \<Rightarrow> bool" where
    "M i j \<longleftrightarrow> decrypt_affine i 256 j (ciphertext ! 0) = Inr 255
       \<and> decrypt_affine i 256 j (ciphertext ! 1) = Inr 216" for i j
  have len: "2 \<le> length (take 2 ciphertext)" using assms by simp
  have nth: "take 2 ciphertext ! 0 = ciphertext ! 0" "take 2 ciphertext ! 1 = ciphertext ! 1"
    by simp_all
  have ht: "\<And>i j. header_test (take 2 ciphertext) i j = Inr (M i j)"
    using header_test_two[OF len] nth by (simp add: M_def decrypt_affine_def)
  have total: "\<exists>res. brute_force ciphertext = Inr res"
    unfolding brute_force_def using ht by (rule brute_force_loop_total)
  have none: "brute_force ciphertext = Inr None \<longleftrightarrow> (\<forall>i\<in>{1..255}. \<forall>j\<in>{0..255}. \<not> M i j)"
    unfolding brute_force_def
    using brute_force_loop_None_iff[of "take 2 ciphertext" M "[1..MAX_BYTES]", OF ht]
    by (simp add: MAX_BYTES_def)
  have some: "brute_force ciphertext = Inr (Some (i, j)) \<longleftrightarrow>
      i \<in> {1..255} \<and> j \<in> {0..255} \<and> M i j
      \<and> (\<forall>i'\<in>{1..255}. \<forall>j'\<in>{0..255}. i' < i \<or> (i' = i \<and> j' < j) \<longrightarrow> \<not> M i' j')" for i j
    unfolding brute_force_def
    using brute_force_loop_Some_iff[of "take 2 ciphertext" M "[1..MAX_BYTES]" i j,
        OF ht sorted_wrt_upto]
    by (simp add: MAX_BYTES_def)
  show ?thesis
    using total none some brute_force_sample[of rest] unfolding M_def by simp
qed

text \<open>The theorem at the ciphertext \<open>[4, 143, 0]\<close>.\<close>

theorem brute_force_first_match_witness:
  "2 \<le> length [4, 143, 0 :: int]
   \<and> brute_force [4, 143, 0] = Inr (Some (171, 7))
   \<and> 171 \<in> {1..255::int} \<and> 7 \<in> {0..255::int}
   \<and> decrypt_affine 171 256 7 4 = Inr 255
   \<and> decrypt_affine 171 256 7 143 = Inr 216
   \<and> brute_force [4, 143, 0] \<noteq> Inr None"
proof -
  have len: "2 \<le> length [4, 143, 0 :: int]" by simp
  have found: "brute_force [4, 143, 0] = Inr (Some (171, 7))"
    using brute_force_first_match[OF len, of "[0]"] by simp
  have "171 \<in> {1..255::int} \<and> 7 \<in> {0..255::int}
     \<and> decrypt_affine 171 256 7 ([4, 143, 0] ! 0) = Inr 255
     \<and> decrypt_affine 171 256 7 ([4, 143, 0] ! 1) = Inr 216"
    using brute_force_first_match[OF len, of "[0]"] found by blast
  then show ?thesis using len found by simp
qed

text \<open>
  Claim C4: on every ciphertext of at least two bytes for which \<^verbatim>\<open>brute_force\<close>
  returns a pair \<open>(i, j)\<close> with \<open>i\<close> odd, \<^verbatim>\<open>exhaustive_key\<close> returns the same pair.
\<close>

theorem exhaustive_key_agrees:
  assumes "2 \<le> length ciphertext"
    and "brute_force ciphertext = Inr (Some (i, j))"
    and "odd i"
  shows "exhaustive_key ciphertext = Some (Inr (Some (i, j)))"
proof -
  have "ciphertext \<noteq> []" using assms(1) by auto
  then show ?thesis using assms(2) by (simp add: exhaustive_key_eq_brute_force)
qed

text \<open>The theorem at the ciphertext \<open>[4, 143]\<close>.\<close>

theorem exhaustive_key_agrees_witness:
  "2 \<le> length [4, 143 :: int] \<and> brute_force [4, 143] = Inr (Some (171, 7)) \<and> odd (171 :: int)
   \<and> exhaustive_key [4, 143] = Some (Inr (Some (171, 7)))"
proof -
  have h1: "2 \<le> length [4, 143 :: int]" by simp
  have h2: "brute_force [4, 143] = Inr (Some (171, 7))" by (rule brute_force_sample)
  have h3: "odd (171 :: int)" by simp
  show ?thesis using h1 h2 h3 exhaustive_key_agrees[OF h1 h2 h3] by simp
qed

text \<open>
  Claim C5: \<^verbatim>\<open>m_inverse_affine(128, 256)\<close> fails with the AffineException of code 3
  that carries the division chain, whose last step has \<open>p = 128\<close>. The code does not
  get that far: the chain of \<open>(128, 256)\<close> has one step, and reading
  \<^verbatim>\<open>gcd_affine[-2]\<close> raises IndexError before the exception of code 3 is built.
\<close>

theorem m_inverse_affine_128_raises:
  "fill_gcd_affine 128 256 = Some (Inl IndexError)
   \<and> m_inverse_affine 128 256 = Some (Inl IndexError)"
  by (simp add: m_inverse_affine_divisor fill_gcd_affine_chain)

text \<open>
  Claim C6: on the plaintexts \<open>[5, 2]\<close> and the ciphertexts \<open>[22, 13]\<close>,
  \<^verbatim>\<open>analyze_known_plaintext\<close> returns \<open>m = 3\<close>, \<open>m^-1 = 171\<close> and \<open>b = 7\<close>, whichever
  of the two indices \<^verbatim>\<open>random.randint\<close> draws first (the second draw is from the one
  index left).
\<close>

theorem analyze_known_plaintext_sample:
  "analyze_known_plaintext 0 0 [5, 2] [22, 13]
     = Some (Inr \<lparr>key_m = 3, key_m_inverse = 171, key_b = 7\<rparr>, [], [])
   \<and> analyze_known_plaintext 1 0 [5, 2] [22, 13]
     = Some (Inr \<lparr>key_m = 3, key_m_inverse = 171, key_b = 7\<rparr>, [], [])"
  by (simp add: analyze_known_plaintext_def pop_def solve_samples_def solve_m_def
      MAX_BYTES_def m_inverse_affine_3)

text \<open>
  Claim C7: when the difference of the two plaintext bytes has a common divisor
  \<open>g > 1\<close> with 256 and \<open>g\<close> does not divide the difference of the two ciphertext
  bytes, \<^verbatim>\<open>analyze_known_plaintext\<close> fails with the AffineException of code 7, in
  particular for the differences 128 and 130. The code breaks this in the named case:
  \<^verbatim>\<open>m_inverse_affine(128, 256)\<close> raises IndexError, which
  \<^verbatim>\<open>except AffineException\<close> does not catch. Where the plaintext difference does not
  divide 256 the code does raise code 7 (\<open>solve_samples_no_solution\<close>).
\<close>

theorem analyze_known_plaintext_128_130:
  "analyze_known_plaintext 0 0 [128, 0] [130, 0] = Some (Inl IndexError, [], [])"
  by (simp add: analyze_known_plaintext_def pop_def solve_samples_def solve_m_def
      MAX_BYTES_def m_inverse_affine_divisor)

text \<open>
  Claim C8: \<^verbatim>\<open>analyze_known_plaintext\<close> leaves its two argument lists as they were.
  It does not: on \<open>[5, 2]\<close> and \<open>[22, 13]\<close> both lists are empty when it returns.
\<close>

theorem analyze_known_plaintext_mutates:
  "analyze_known_plaintext 0 0 [5, 2] [22, 13]
     = Some (Inr \<lparr>key_m = 3, key_m_inverse = 171, key_b = 7\<rparr>, [], [])
   \<and> ([] :: int list) \<noteq> [5, 2] \<and> ([] :: int list) \<noteq> [22, 13]"
  by (simp add: analyze_known_plaintext_def pop_def solve_samples_def solve_m_def
      MAX_BYTES_def m_inverse_affine_3)

text \<open>
  Claim C8, amended: \<^verbatim>\<open>analyze_known_plaintext\<close> returns or raises, and when the call
  ends each of its two argument lists has lost the two sampled elements (the one at
  \<open>first_eq_index\<close>, then the one at \<open>second_eq_index\<close> of what is left), every other
  element staying in place and in order; only when a length check fails (codes 5 and
  6) are both lists unchanged.
\<close>

theorem analyze_known_plaintext_pops:
  "(length known_plaintext \<noteq> length known_ciphertext \<or> length known_plaintext < 2 \<longrightarrow>
      (\<exists>e. analyze_known_plaintext i1 i2 known_plaintext known_ciphertext
             = Some (Inl e, known_plaintext, known_ciphertext)))
   \<and> (length known_plaintext = length known_ciphertext \<and> 2 \<le> length known_plaintext
        \<and> i1 < length known_plaintext \<and> i2 < length known_plaintext - 1 \<longrightarrow>
      (\<exists>res. analyze_known_plaintext i1 i2 known_plaintext known_ciphertext
         = Some (res,
             take i2 (take i1 known_plaintext @ drop (Suc i1) known_plaintext)
               @ drop (Suc i2) (take i1 known_plaintext @ drop (Suc i1) known_plaintext),
             take i2 (take i1 known_ciphertext @ drop (Suc i1) known_ciphertext)
               @ drop (Suc i2) (take i1 known_ciphertext @ drop (Suc i1) known_ciphertext))))"
proof (intro conjI impI)
  assume "length known_plaintext \<noteq> length known_ciphertext \<or> length known_plaintext < 2"
  then show "\<exists>e. analyze_known_plaintext i1 i2 known_plaintext known_ciphertext
             = Some (Inl e, known_plaintext, known_ciphertext)"
    by (auto simp: analyze_known_plaintext_def)
next
  define kp1 where "kp1 = take i1 known_plaintext @ drop (Suc i1) known_plaintext"
  define kc1 where "kc1 = take i1 known_ciphertext @ drop (Suc i1) known_ciphertext"
  assume a: "length known_plaintext = length known_ciphertext \<and> 2 \<le> length known_plaintext
        \<and> i1 < length known_plaintext \<and> i2 < length known_plaintext - 1"
  then have eq: "length known_plaintext = length known_ciphertext"
    and ge: "2 \<le> length known_plaintext"
    and i1: "i1 < length known_plaintext" "i1 < length known_ciphertext"
    and i2: "i2 < length known_plaintext - 1"
    by auto
  have pop1: "pop known_plaintext i1 = Inr (known_plaintext ! i1, kp1)"
      "pop known_ciphertext i1 = Inr (known_ciphertext ! i1, kc1)"
    unfolding kp1_def kc1_def using i1 by (simp_all add: pop_in_range(1))
  have len1: "i2 < length kp1" "i2 < length kc1"
    unfolding kp1_def kc1_def using i1 i2 eq by (simp_all only: pop_in_range(2))
  have pop2: "pop kp1 i2 = Inr (kp1 ! i2, take i2 kp1 @ drop (Suc i2) kp1)"
      "pop kc1 i2 = Inr (kc1 ! i2, take i2 kc1 @ drop (Suc i2) kc1)"
    using len1 by (simp_all only: pop_in_range(1))
  obtain res where "solve_samples (known_plaintext ! i1) (known_ciphertext ! i1)
      (kp1 ! i2) (kc1 ! i2) = Some res"
    using solve_samples_returns by blast
  then have "analyze_known_plaintext i1 i2 known_plaintext known_ciphertext
      = Some (res, take i2 kp1 @ drop (Suc i2) kp1, take i2 kc1 @ drop (Suc i2) kc1)"
    by (simp add: analyze_known_plaintext_popped[OF eq ge pop1 pop2])
  then show "\<exists>res. analyze_known_plaintext i1 i2 known_plaintext known_ciphertext
         = Some (res,
             take i2 (take i1 known_plaintext @ drop (Suc i1) known_plaintext)
               @ drop (Suc i2) (take i1 known_plaintext @ drop (Suc i1) known_plaintext),
             take i2 (take i1 known_ciphertext @ drop (Suc i1) known_ciphertext)
               @ drop (Suc i2) (take i1 known_ciphertext @ drop (Suc i1) known_ciphertext))"
    unfolding kp1_def kc1_def by blast
qed

text \<open>The theorem at \<open>[5, 2]\<close>, \<open>[22, 13]\<close> and at the too short \<open>[5]\<close>, \<open>[22]\<close>.\<close>

theorem analyze_known_plaintext_pops_witness:
  "length [5, 2 :: int] = length [22, 13 :: int] \<and> 2 \<le> length [5, 2 :: int]
   \<and> (0::nat) < length [5, 2 :: int] \<and> (0::nat) < length [5, 2 :: int] - 1
   \<and> (\<exists>res. analyze_known_plaintext 0 0 [5, 2] [22, 13] = Some (res, [], []))
   \<and> length [5 :: int] < 2
   \<and> (\<exists>e. analyze_known_plaintext 0 0 [5] [22] = Some (Inl e, [5], [22]))"
proof -
  have "\<exists>res. analyze_known_plaintext 0 0 [5, 2] [22, 13] = Some (res, [], [])"
    using analyze_known_plaintext_pops[of "[5, 2]" "[22, 13]" 0 0] by simp
  moreover have "\<exists>e. analyze_known_plaintext 0 0 [5] [22] = Some (Inl e, [5], [22])"
    using analyze_known_plaintext_pops[of "[5]" "[22]" 0 0] by simp
  ultimately show ?thesis by simp
qed

text \<open>
  The invariant of the backtracking loop, for a chain that \<^verbatim>\<open>fill_gcd_affine\<close> has
  returned: after every iteration that has set the running identity \<open>{m, x, n, y}\<close>,
  \<open>m * x + n * y = gcd m n = 1\<close> holds for its own fields \<open>m\<close> and \<open>n\<close>, which at
  the end are the arguments, and the result is the final \<open>x\<close>, with \<open>n\<close> added exactly
  when \<open>x\<close> is negative, which lies in \<open>[0, n)\<close>.
\<close>

lemma bezout_invariant_of_chain:
  assumes "0 < m" and "m < n" and "gcd m n = 1"
    and "fill_gcd_affine m n = Some (Inr chain)"
  shows "(\<forall>t\<le>length chain.
            case snd ((backtrack_iteration ^^ t) (chain, None)) of
              None \<Rightarrow> True
            | Some B \<Rightarrow> bz_m B * bz_x B + bz_n B * bz_y B = gcd (bz_m B) (bz_n B)
                \<and> gcd (bz_m B) (bz_n B) = 1)
    \<and> (\<exists>B. backtrack_loop (chain, None) = Some B
          \<and> snd ((backtrack_iteration ^^ length chain) (chain, None)) = Some B
          \<and> bz_m B = m \<and> bz_n B = n \<and> m * bz_x B + n * bz_y B = 1
          \<and> m_inverse_affine m n = Some (Inr (if bz_x B < 0 then bz_x B + n else bz_x B))
          \<and> 0 \<le> (if bz_x B < 0 then bz_x B + n else bz_x B)
          \<and> (if bz_x B < 0 then bz_x B + n else bz_x B) < n)"
proof -
  have "fill_gcd_affine m n =
      (if n mod m = 0 then Some (Inl IndexError)
       else if gcd m n \<noteq> 1 then Some (Inl (AffineException 3 (Some (euclid_chain m n))))
       else Some (Inr (euclid_chain m n)))"
    using assms(1,2) by (rule fill_gcd_affine_chain)
  with assms(3,4) have nd: "n mod m \<noteq> 0" and chain: "chain = euclid_chain m n"
    by (simp_all split: if_splits)
  have inv: "\<forall>t\<le>length chain.
      case snd ((backtrack_iteration ^^ t) (chain, None)) of
        None \<Rightarrow> True
      | Some B \<Rightarrow> bz_m B * bz_x B + bz_n B * bz_y B = gcd (bz_m B) (bz_n B)
          \<and> gcd (bz_m B) (bz_n B) = 1"
  proof (intro allI impI)
    fix t assume t: "t \<le> length chain"
    have "snd ((backtrack_iteration ^^ t) (chain, None)) =
        foldr backtrack_step (drop (length chain - t) chain) None"
      using t by (simp add: backtrack_iteration_funpow)
    moreover have "case foldr backtrack_step (drop (length chain - t) chain) None of
        None \<Rightarrow> True
      | Some B \<Rightarrow> bz_m B * bz_x B + bz_n B * bz_y B = 1 \<and> gcd (bz_m B) (bz_n B) = 1"
      unfolding chain using assms(1-3) by (intro backtrack_suffix_invariant) simp_all
    ultimately show "case snd ((backtrack_iteration ^^ t) (chain, None)) of
        None \<Rightarrow> True
      | Some B \<Rightarrow> bz_m B * bz_x B + bz_n B * bz_y B = gcd (bz_m B) (bz_n B)
          \<and> gcd (bz_m B) (bz_n B) = 1"
      by (simp split: option.splits)
  qed
  from m_inverse_affine_backtrack[OF assms(1-3) nd] obtain B where
    all: "fill_gcd_affine m n = Some (Inr (euclid_chain m n))
      \<and> backtrack_loop (euclid_chain m n, None) = Some B
      \<and> bz_m B = m \<and> bz_n B = n \<and> m * bz_x B + n * bz_y B = 1
      \<and> \<bar>bz_x B\<bar> < n \<and> \<bar>bz_y B\<bar> < m
      \<and> m_inverse_affine m n = Some (Inr (if bz_x B < 0 then n + bz_x B else bz_x B))" ..
  then have loop: "backtrack_loop (chain, None) = Some B"
    and fields: "bz_m B = m" "bz_n B = n" "m * bz_x B + n * bz_y B = 1"
    and bound: "\<bar>bz_x B\<bar> < n"
    and res: "m_inverse_affine m n = Some (Inr (if bz_x B < 0 then n + bz_x B else bz_x B))"
    using chain by simp_all
  have last: "snd ((backtrack_iteration ^^ length chain) (chain, None)) = Some B"
    using loop by (simp add: backtrack_iteration_funpow backtrack_loop_foldr)
  have res': "m_inverse_affine m n = Some (Inr (if bz_x B < 0 then bz_x B + n else bz_x B))"
    using res by (simp add: add.commute)
  have range: "0 \<le> (if bz_x B < 0 then bz_x B + n else bz_x B)"
      "(if bz_x B < 0 then bz_x B + n else bz_x B) < n"
    using bound by auto
  from inv loop last fields res' range show ?thesis by blast
qed

text \<open>The lemma at \<open>m = 7\<close>, \<open>n = 256\<close>.\<close>

lemma bezout_invariant_at_7:
  "(0::int) < 7 \<and> (7::int) < 256 \<and> gcd (7::int) 256 = 1
   \<and> fill_gcd_affine 7 256 = Some (Inr (euclid_chain 7 256))
   \<and> m_inverse_affine 7 256 = Some (Inr 183)
   \<and> (\<exists>B. backtrack_loop (euclid_chain 7 256, None) = Some B
         \<and> 7 * bz_x B + 256 * bz_y B = 1)"
proof -
  have h1: "(0::int) < 7" and h2: "(7::int) < 256" by simp_all
  have h3: "gcd (7::int) 256 = 1" by (simp add: gcd_256_odd)
  have h4: "fill_gcd_affine 7 256 = Some (Inr (euclid_chain 7 256))"
    using h3 by (simp add: fill_gcd_affine_chain)
  have inv: "m_inverse_affine 7 256 = Some (Inr 183)"
    by (simp add: m_inverse_affine_def fill_gcd_affine_def modulo_formula_ordered
      fill_gcd_affine_loop.simps index_from_end_def
      backtrack_loop.simps backtrack_iteration_def backtrack_step_def)
  have "\<exists>B. backtrack_loop (euclid_chain 7 256, None) = Some B
         \<and> 7 * bz_x B + 256 * bz_y B = 1"
    using bezout_invariant_of_chain[OF h1 h2 h3 h4] by blast
  with h1 h2 h3 h4 inv show ?thesis by simp
qed

text \<open>
  For coprime \<open>1 < m < n\<close> the chain is returned, so the loop is entered and the
  invariant and the normalised result hold with no further condition.
\<close>

lemma bezout_invariant_above_one:
  assumes "1 < m" and "m < n" and "gcd m n = 1"
  shows "\<exists>chain. fill_gcd_affine m n = Some (Inr chain)
    \<and> (\<forall>t\<le>length chain.
            case snd ((backtrack_iteration ^^ t) (chain, None)) of
              None \<Rightarrow> True
            | Some B \<Rightarrow> bz_m B * bz_x B + bz_n B * bz_y B = gcd (bz_m B) (bz_n B)
                \<and> gcd (bz_m B) (bz_n B) = 1)
    \<and> (\<exists>B. backtrack_loop (chain, None) = Some B
          \<and> snd ((backtrack_iteration ^^ length chain) (chain, None)) = Some B
          \<and> bz_m B = m \<and> bz_n B = n \<and> m * bz_x B + n * bz_y B = 1
          \<and> m_inverse_affine m n = Some (Inr (if bz_x B < 0 then bz_x B + n else bz_x B))
          \<and> 0 \<le> (if bz_x B < 0 then bz_x B + n else bz_x B)
          \<and> (if bz_x B < 0 then bz_x B + n else bz_x B) < n)"
proof -
  have pos: "0 < m" using assms(1) by simp
  have nd: "n mod m \<noteq> 0" using assms(1,3) by (rule coprime_not_dvd)
  have fill: "fill_gcd_affine m n = Some (Inr (euclid_chain m n))"
    using pos assms(2,3) nd by (simp add: fill_gcd_affine_chain)
  show ?thesis
    using fill bezout_invariant_of_chain[OF pos assms(2,3) fill] by blast
qed

text \<open>
  Claim C9: for coprime \<open>0 < m < n\<close>, throughout the backtracking loop of
  \<^verbatim>\<open>m_inverse_affine(m, n)\<close> the running identity \<open>{m, x, n, y}\<close> satisfies
  \<open>m * x + n * y = gcd m n = 1\<close> after every processed step, and at the end \<open>x\<close> is
  normalised into \<open>[0, n)\<close> by adding \<open>n\<close> exactly when it is negative. The code
  breaks this at \<open>m = 1\<close>, \<open>n = 256\<close>, which is coprime with \<open>0 < m < n\<close>: the chain
  has one step, \<^verbatim>\<open>gcd_affine[-2]\<close> in \<^verbatim>\<open>fill_gcd_affine\<close> raises IndexError, no chain
  reaches the loop and no \<open>x\<close> in \<open>[0, 256)\<close> is returned. For every coprime
  \<open>1 < m < n\<close> the property holds (\<open>bezout_invariant_above_one\<close>).
\<close>

theorem backtracking_not_reached_for_one:
  "(0::int) < 1 \<and> (1::int) < 256 \<and> gcd (1::int) 256 = 1
   \<and> fill_gcd_affine 1 256 = Some (Inl IndexError)
   \<and> \<not> (\<exists>chain. fill_gcd_affine 1 256 = Some (Inr chain))
   \<and> \<not> (\<exists>x. m_inverse_affine 1 256 = Some (Inr x) \<and> 0 \<le> x \<and> x < 256)"
  by (simp add: fill_gcd_affine_chain m_inverse_affine_divisor)

text \<open>
  Claim C10: for an even \<open>m_inverse\<close>, \<^verbatim>\<open>decrypt_affine(m_inverse, 256, b, C)\<close> is even
  for all \<open>b\<close> and \<open>C\<close>, hence never \<open>0xFF\<close>; so neither \<^verbatim>\<open>brute_force\<close> nor
  \<^verbatim>\<open>exhaustive_key\<close> returns a pair whose first component is even.
\<close>

theorem even_m_inverse_never_found:
  "(even m_inverse \<longrightarrow>
      (\<exists>P. decrypt_affine m_inverse 256 b C = Inr P \<and> even P \<and> P \<noteq> 255))
   \<and> (brute_force ciphertext = Inr (Some (i, j)) \<longrightarrow> odd i)
   \<and> (exhaustive_key ciphertext = Some (Inr (Some (i, j))) \<longrightarrow> odd i)"
proof (intro conjI impI)
  assume e: "even m_inverse"
  have "even ((m_inverse * (C - b)) mod 256)" using e by (rule even_mult_mod_256)
  moreover from this have "(m_inverse * (C - b)) mod 256 \<noteq> 255" by auto
  ultimately show "\<exists>P. decrypt_affine m_inverse 256 b C = Inr P \<and> even P \<and> P \<noteq> 255"
    by (simp add: decrypt_affine_def)
next
  assume "brute_force ciphertext = Inr (Some (i, j))"
  then show "odd i" unfolding brute_force_def by (rule brute_force_loop_odd)
next
  assume "exhaustive_key ciphertext = Some (Inr (Some (i, j)))"
  then show "odd i" unfolding exhaustive_key_def by (rule exhaustive_key_loop_odd)
qed

text \<open>The theorem at \<open>m_inverse = 2\<close> and at the ciphertext \<open>[4, 143]\<close>.\<close>

theorem even_m_inverse_never_found_witness:
  "even (2::int)
   \<and> (\<exists>P. decrypt_affine 2 256 7 4 = Inr P \<and> even P \<and> P \<noteq> 255)
   \<and> brute_force [4, 143] = Inr (Some (171, 7))
   \<and> exhaustive_key [4, 143] = Some (Inr (Some (171, 7)))
   \<and> odd (171::int)"
  using even_m_inverse_never_found[of 2 7 4 "[4, 143]" 171 7]
    brute_force_sample[of "[]"] exhaustive_key_sample[of "[]"]
  by simp

end
